theory Spec2Isabelle
  imports Complex_Main "HOL-Library.AList"
begin

section \<open>Constants, players, actions\<close>

text \<open>
  The module \<^verbatim>\<open>ludo_mcts.py\<close>: a two-player Ludo rules engine (class LudoState) and a
  Monte Carlo Tree Search over it (classes MCTSNode and MCTS, function choose_blue_move).

  A player is the string "Blue" or "Red" in the source; the two strings are the two
  constructors here. An action is the pair (token_index, target_position) of Python ints.
\<close>

datatype player = Blue | Red

type_synonym action = "int \<times> int"

datatype error = ValueError | IndexError | KeyError

definition TRACK_LEN :: int where "TRACK_LEN = 40"
definition FINISH_LEN :: int where "FINISH_LEN = 4"
definition BLUE_START :: int where "BLUE_START = 0"
definition RED_START :: int where "RED_START = TRACK_LEN div 2"
definition HOME :: int where "HOME = - 1"

definition other_player :: "player \<Rightarrow> player" where
  "other_player p = (if p = Blue then Red else Blue)"

section \<open>The store\<close>

text \<open>
  LudoState objects and the token lists they point to are mutable and shared by reference:
  apply_action writes into the lists, clone copies them. The store therefore keeps lists
  and state objects under addresses; a LudoState object holds the addresses of its two
  lists and the current player. \<open>fresh\<close> is the next unused address.
\<close>

type_synonym addr = nat

record LudoState =
  blue_tokens :: addr
  red_tokens :: addr
  current_player :: player

record heap =
  lists_of :: "addr \<Rightarrow> int list"
  states_of :: "addr \<Rightarrow> LudoState"
  fresh :: addr

definition empty_heap :: heap where
  "empty_heap = \<lparr>lists_of = (\<lambda>a. []), states_of = (\<lambda>a. \<lparr>blue_tokens = 0, red_tokens = 0,
     current_player = Blue\<rparr>), fresh = 0\<rparr>"

text \<open>The dataclass constructor, called with two new lists: it allocates the two lists and
  the object.\<close>

definition LudoState_init :: "heap \<Rightarrow> int list \<Rightarrow> int list \<Rightarrow> player \<Rightarrow> addr \<times> heap" where
  "LudoState_init h blue red p =
     (let b = fresh h; r = fresh h + 1; obj = fresh h + 2
      in (obj, \<lparr>lists_of = (lists_of h)(b := blue, r := red),
                 states_of = (states_of h)(obj := \<lparr>blue_tokens = b, red_tokens = r,
                    current_player = p\<rparr>),
                 fresh = fresh h + 3\<rparr>))"

text \<open>A state object alone in the empty store: its lists are at 0 and 1, the object at 2.\<close>

definition board :: "int list \<Rightarrow> int list \<Rightarrow> player \<Rightarrow> heap" where
  "board blue red p = snd (LudoState_init empty_heap blue red p)"

text \<open>Python list indexing: a negative index counts from the end, anything else out of
  range raises IndexError (None here).\<close>

definition py_index :: "nat \<Rightarrow> int \<Rightarrow> nat option" where
  "py_index n i =
     (if 0 \<le> i \<and> i < int n then Some (nat i)
      else if - int n \<le> i \<and> i < 0 then Some (nat (int n + i))
      else None)"

section \<open>LudoState\<close>

definition clone :: "heap \<Rightarrow> addr \<Rightarrow> addr \<times> heap" where
  "clone h self =
     (let s = states_of h self
      in LudoState_init h (lists_of h (blue_tokens s)) (lists_of h (red_tokens s))
           (current_player s))"

definition current_tokens :: "heap \<Rightarrow> addr \<Rightarrow> addr" where
  "current_tokens h self =
     (let s = states_of h self
      in if current_player s = Blue then blue_tokens s else red_tokens s)"

definition opponent_tokens :: "heap \<Rightarrow> addr \<Rightarrow> addr" where
  "opponent_tokens h self =
     (let s = states_of h self
      in if current_player s = Blue then red_tokens s else blue_tokens s)"

definition all_finished :: "int list \<Rightarrow> bool" where
  "all_finished tokens = list_all (\<lambda>pos. pos \<ge> TRACK_LEN + FINISH_LEN - 1) tokens"

definition track_to_global :: "int \<Rightarrow> player \<Rightarrow> int" where
  "track_to_global pos p =
     (let start = (if p = Blue then BLUE_START else RED_START)
      in (start + pos) mod TRACK_LEN)"

fun track_positions :: "int list \<Rightarrow> player \<Rightarrow> int list" where
  "track_positions [] p = []"
| "track_positions (pos # rest) p =
     (if 0 \<le> pos \<and> pos < TRACK_LEN then track_to_global pos p # track_positions rest p
      else track_positions rest p)"

definition is_terminal :: "heap \<Rightarrow> addr \<Rightarrow> bool" where
  "is_terminal h self =
     (let s = states_of h self
      in all_finished (lists_of h (blue_tokens s)) \<or> all_finished (lists_of h (red_tokens s)))"

definition winner :: "heap \<Rightarrow> addr \<Rightarrow> player option" where
  "winner h self =
     (let s = states_of h self
      in if all_finished (lists_of h (blue_tokens s)) then Some Blue
         else if all_finished (lists_of h (red_tokens s)) then Some Red
         else None)"

text \<open>The body of the loop of get_legal_actions: \<open>actions\<close> is the list built so far,
  \<open>(idx, pos)\<close> the pair that enumerate yields.\<close>

definition legal_step :: "int list \<Rightarrow> int list \<Rightarrow> int \<Rightarrow> action list \<Rightarrow> int \<times> int \<Rightarrow> action list" where
  "legal_step tokens own_track_positions dice_roll actions ip =
     (let idx = fst ip; pos = snd ip
      in if pos = HOME then
           (if dice_roll \<noteq> 6 then actions
            else if 0 \<in> set own_track_positions then actions
            else actions @ [(idx, 0)])
         else if pos \<ge> TRACK_LEN + FINISH_LEN then actions
         else
           (let target = pos + dice_roll
            in if target \<ge> TRACK_LEN + FINISH_LEN then actions
               else if target \<ge> TRACK_LEN then
                 (if target \<in> set tokens then actions else actions @ [(idx, target)])
               else if target \<in> set own_track_positions then actions
               else actions @ [(idx, target)]))"

definition enumerate_py :: "int list \<Rightarrow> (int \<times> int) list" where
  "enumerate_py xs = zip (map int [0..<length xs]) xs"

definition get_legal_actions :: "heap \<Rightarrow> addr \<Rightarrow> int \<Rightarrow> action list" where
  "get_legal_actions h self dice_roll =
     (let tokens = lists_of h (current_tokens h self);
          own_track_positions = track_positions tokens (current_player (states_of h self))
      in foldl (legal_step tokens own_track_positions dice_roll) [] (enumerate_py tokens))"

text \<open>The loop of _capture_opponent reads the list at each index as it is at that moment
  and writes HOME into it.\<close>

definition capture_step :: "int \<Rightarrow> player \<Rightarrow> int list \<Rightarrow> nat \<Rightarrow> int list" where
  "capture_step target_global opponent_player opponent idx =
     (let pos = opponent ! idx
      in if 0 \<le> pos \<and> pos < TRACK_LEN \<and> track_to_global pos opponent_player = target_global
         then opponent[idx := HOME] else opponent)"

definition capture_opponent :: "heap \<Rightarrow> addr \<Rightarrow> int \<Rightarrow> heap" where
  "capture_opponent h self target_global =
     (let opponent = opponent_tokens h self;
          opponent_player = other_player (current_player (states_of h self));
          xs = lists_of h opponent
      in h\<lparr>lists_of := (lists_of h)(opponent :=
             foldl (capture_step target_global opponent_player) xs [0..<length xs])\<rparr>)"

text \<open>apply_action returns the store as it is when the call ends, also when it ends by
  raising: \<open>Inl\<close> is the exception.\<close>

definition apply_action :: "heap \<Rightarrow> addr \<Rightarrow> action \<Rightarrow> (error + unit) \<times> heap" where
  "apply_action h self act =
     (let token_index = fst act; target = snd act;
          tokens = current_tokens h self;
          opponent_tokens = opponent_tokens h self
      in case py_index (length (lists_of h tokens)) token_index of
           None \<Rightarrow> (Inl IndexError, h)
         | Some k \<Rightarrow>
             if lists_of h tokens ! k = HOME \<and> target \<noteq> 0 then (Inl ValueError, h)
             else
               (let h1 =
                  (if target < TRACK_LEN then
                     (let target_global = track_to_global target (current_player (states_of h self));
                          opponent_track_positions = track_positions (lists_of h opponent_tokens)
                             (other_player (current_player (states_of h self)))
                      in if target_global \<in> set opponent_track_positions
                         then capture_opponent h self target_global else h)
                   else h);
                  h2 = h1\<lparr>lists_of := (lists_of h1)(tokens := (lists_of h1 tokens)[k := target])\<rparr>;
                  s = states_of h2 self;
                  h3 = h2\<lparr>states_of := (states_of h2)(self :=
                          s\<lparr>current_player := other_player (current_player s)\<rparr>)\<rparr>
                in (Inr (), h3)))"

type_synonym key = "player \<times> int list \<times> int list"

definition key :: "heap \<Rightarrow> addr \<Rightarrow> key" where
  "key h self =
     (let s = states_of h self
      in (current_player s, lists_of h (blue_tokens s), lists_of h (red_tokens s)))"

section \<open>MCTSNode\<close>

text \<open>
  The three dictionaries of a node keep their insertion order, as Python's do (search
  breaks ties by it). Visit counts are only ever created by adding 1, so they are naturals.
  The accumulated values are Python floats; they and the scores computed from them are
  read as real numbers here, with an extra value for float("inf").
\<close>

record MCTSNode =
  state_key :: key
  children :: "(action \<times> key) list"
  N :: "(action \<times> nat) list"
  W :: "(action \<times> real) list"
  total_visits :: nat

definition MCTSNode_init :: "key \<Rightarrow> MCTSNode" where
  "MCTSNode_init k = \<lparr>state_key = k, children = [], N = [], W = [], total_visits = 0\<rparr>"

text \<open>\<^verbatim>\<open>d.get(k, dflt)\<close>\<close>

definition dict_get :: "('k \<times> 'v) list \<Rightarrow> 'k \<Rightarrow> 'v \<Rightarrow> 'v" where
  "dict_get d k dflt = (case map_of d k of None \<Rightarrow> dflt | Some v \<Rightarrow> v)"

text \<open>In q_value the read \<^verbatim>\<open>self.N[action]\<close> happens only after the test that the count is
  not 0, hence that the key is there: it is the same value as the \<^verbatim>\<open>get\<close> before it.\<close>

definition q_value :: "MCTSNode \<Rightarrow> action \<Rightarrow> real" where
  "q_value node a =
     (if dict_get (N node) a 0 = 0 then 0
      else dict_get (W node) a 0 / real (dict_get (N node) a 0))"

datatype score = Score real | PosInf

fun score_gt :: "score \<Rightarrow> score \<Rightarrow> bool" where
  "score_gt (Score x) (Score y) = (x > y)"
| "score_gt PosInf (Score y) = True"
| "score_gt s PosInf = False"

definition uct_score :: "MCTSNode \<Rightarrow> action \<Rightarrow> real \<Rightarrow> player \<Rightarrow> score" where
  "uct_score node a cpuct p =
     (let n_sa = dict_get (N node) a 0
      in if n_sa = 0 then PosInf
         else
           (let sign = (if p = Blue then 1 else - 1);
                exploitation = sign * q_value node a;
                exploration = cpuct * sqrt (ln (real (total_visits node + 1)) / real n_sa)
            in Score (exploitation + exploration)))"

text \<open>Python's \<^verbatim>\<open>max(xs, key=f)\<close>: the first of the elements with the greatest key
  (a later element replaces the best so far only if its key is strictly greater); it raises
  ValueError on an empty sequence.\<close>

fun max_by :: "('k \<Rightarrow> 'k \<Rightarrow> bool) \<Rightarrow> ('a \<Rightarrow> 'k) \<Rightarrow> 'a list \<Rightarrow> error + 'a" where
  "max_by gt f [] = Inl ValueError"
| "max_by gt f (x # xs) = Inr (foldl (\<lambda>best y. if gt (f y) (f best) then y else best) x xs)"

section \<open>The random source\<close>

text \<open>
  The module draws from Python's global generator. Here the generator is a stream
  \<open>rnd\<close> of naturals and a read position: every sequence of draws of the real generator
  is the behaviour of some stream.
\<close>

record world =
  hp :: heap
  nodes :: "key \<rightharpoonup> MCTSNode"
  rpos :: nat

definition randint :: "(nat \<Rightarrow> nat) \<Rightarrow> int \<Rightarrow> int \<Rightarrow> world \<Rightarrow> int \<times> world" where
  "randint rnd lo hi w = (lo + int (rnd (rpos w) mod nat (hi - lo + 1)), w\<lparr>rpos := rpos w + 1\<rparr>)"

definition choice :: "(nat \<Rightarrow> nat) \<Rightarrow> 'a list \<Rightarrow> world \<Rightarrow> (error + 'a) \<times> world" where
  "choice rnd xs w =
     (if xs = [] then (Inl IndexError, w)
      else (Inr (xs ! (rnd (rpos w) mod length xs)), w\<lparr>rpos := rpos w + 1\<rparr>))"

section \<open>MCTS\<close>

definition default_cpuct :: real where "default_cpuct = 1.4"
definition default_n_simulations :: int where "default_n_simulations = 1000"
definition default_max_depth :: nat where "default_max_depth = 200"

text \<open>The assignment \<^verbatim>\<open>state.current_player = other_player(state.current_player)\<close>.\<close>

definition pass_turn :: "heap \<Rightarrow> addr \<Rightarrow> heap" where
  "pass_turn h state =
     h\<lparr>states_of := (states_of h)(state :=
        (states_of h state)\<lparr>current_player := other_player (current_player (states_of h state))\<rparr>)\<rparr>"

definition value_to_winner :: "real \<Rightarrow> player option" where
  "value_to_winner v = (if v > 0 then Some Blue else if v < 0 then Some Red else None)"

text \<open>
  A path entry is (node, action, player) in the source, the node being the object found in
  the table under the state's key. The table never replaces or removes a node, so the entry
  names its node by that key, and a write to the node is a write to the table's slot.
\<close>

type_synonym path = "(key \<times> action \<times> player) list"

definition backprop_step :: "real \<Rightarrow> (key \<rightharpoonup> MCTSNode) \<Rightarrow> key \<times> action \<times> player \<Rightarrow> (key \<rightharpoonup> MCTSNode)" where
  "backprop_step outcome ns e =
     (let k = fst e; a = fst (snd e)
      in case ns k of
           None \<Rightarrow> ns
         | Some node \<Rightarrow>
             ns(k \<mapsto> node\<lparr>total_visits := total_visits node + 1,
                           N := AList.update a (dict_get (N node) a 0 + 1) (N node),
                           W := AList.update a (dict_get (W node) a 0 + outcome) (W node)\<rparr>))"

definition backpropagate :: "path \<Rightarrow> player option \<Rightarrow> world \<Rightarrow> real \<times> world" where
  "backpropagate path won w =
     (let outcome = (case won of Some Blue \<Rightarrow> 1 | Some Red \<Rightarrow> - 1 | None \<Rightarrow> 0)
      in (outcome, w\<lparr>nodes := foldl (backprop_step outcome) (nodes w) path\<rparr>))"

fun rollout :: "(nat \<Rightarrow> nat) \<Rightarrow> nat \<Rightarrow> addr \<Rightarrow> world \<Rightarrow> (error + real) \<times> world" where
  "rollout rnd 0 state w = (Inr 0, w)"
| "rollout rnd (Suc max_depth) state w =
     (if is_terminal (hp w) state then
        (case winner (hp w) state of
           Some Blue \<Rightarrow> (Inr 1, w)
         | Some Red \<Rightarrow> (Inr (- 1), w)
         | None \<Rightarrow> (Inr 0, w))
      else
        (case randint rnd 1 6 w of (dice_roll, w1) \<Rightarrow>
          (let legal_actions = get_legal_actions (hp w1) state dice_roll
           in if legal_actions = [] then
                rollout rnd max_depth state (w1\<lparr>hp := pass_turn (hp w1) state\<rparr>)
              else
                (case choice rnd legal_actions w1 of
                   (Inl e, w2) \<Rightarrow> (Inl e, w2)
                 | (Inr action, w2) \<Rightarrow>
                     (case apply_action (hp w2) state action of
                        (Inl e, h3) \<Rightarrow> (Inl e, w2\<lparr>hp := h3\<rparr>)
                      | (Inr u, h3) \<Rightarrow> rollout rnd max_depth state (w2\<lparr>hp := h3\<rparr>))))))"

text \<open>The branch of _simulate for a state with no node yet (lines 179 to 182).\<close>

definition simulate_leaf :: "(nat \<Rightarrow> nat) \<Rightarrow> addr \<Rightarrow> path \<Rightarrow> world \<Rightarrow> (error + real) \<times> world" where
  "simulate_leaf rnd state path w =
     (let k = key (hp w) state;
          w1 = w\<lparr>nodes := (nodes w)(k \<mapsto> MCTSNode_init k)\<rparr>
      in case rollout rnd default_max_depth state w1 of
           (Inl e, w2) \<Rightarrow> (Inl e, w2)
         | (Inr v, w2) \<Rightarrow>
             (case backpropagate path (value_to_winner v) w2 of
                (outcome, w3) \<Rightarrow> (Inr outcome, w3)))"

text \<open>The expansion branch of _simulate (lines 190 to 196); \<open>node\<close> is the node found
  under \<open>k\<close>.\<close>

definition simulate_expand ::
  "(nat \<Rightarrow> nat) \<Rightarrow> addr \<Rightarrow> key \<Rightarrow> MCTSNode \<Rightarrow> path \<Rightarrow> action list \<Rightarrow> world \<Rightarrow> (error + real) \<times> world" where
  "simulate_expand rnd state k node path untried w =
     (case choice rnd untried w of
        (Inl e, w1) \<Rightarrow> (Inl e, w1)
      | (Inr action, w1) \<Rightarrow>
          (case clone (hp w1) state of (next_state, h2) \<Rightarrow>
            (case apply_action h2 next_state action of
               (Inl e, h3) \<Rightarrow> (Inl e, w1\<lparr>hp := h3\<rparr>)
             | (Inr u, h3) \<Rightarrow>
                 (let w4 = w1\<lparr>hp := h3, nodes := (nodes w1)(k \<mapsto>
                              node\<lparr>children := AList.update action (key h3 next_state) (children node)\<rparr>)\<rparr>;
                      path' = path @ [(k, action, current_player (states_of h3 state))]
                  in case rollout rnd default_max_depth next_state w4 of
                       (Inl e, w5) \<Rightarrow> (Inl e, w5)
                     | (Inr v, w5) \<Rightarrow>
                         (case backpropagate path' (value_to_winner v) w5 of
                            (outcome, w6) \<Rightarrow> (Inr outcome, w6))))))"

text \<open>
  The loop of _simulate may run forever (two players who can never move pass the turn to
  each other), so it carries fuel, one unit for each iteration: None is "no result within
  the fuel".
\<close>

fun simulate :: "(nat \<Rightarrow> nat) \<Rightarrow> real \<Rightarrow> nat \<Rightarrow> addr \<Rightarrow> path \<Rightarrow> world \<Rightarrow> ((error + real) \<times> world) option" where
  "simulate rnd cpuct 0 state path w = None"
| "simulate rnd cpuct (Suc fuel) state path w =
     (if is_terminal (hp w) state then
        (case backpropagate path (winner (hp w) state) w of
           (outcome, w1) \<Rightarrow> Some (Inr outcome, w1))
      else
        (let k = key (hp w) state
         in case nodes w k of
              None \<Rightarrow> Some (simulate_leaf rnd state path w)
            | Some node \<Rightarrow>
                (case randint rnd 1 6 w of (dice_roll, w1) \<Rightarrow>
                  (let legal_actions = get_legal_actions (hp w1) state dice_roll
                   in if legal_actions = [] then
                        simulate rnd cpuct fuel state path (w1\<lparr>hp := pass_turn (hp w1) state\<rparr>)
                      else
                        (let untried = filter (\<lambda>a. map_of (children node) a = None) legal_actions
                         in if untried \<noteq> [] then
                              Some (simulate_expand rnd state k node path untried w1)
                            else
                              (case max_by score_gt
                                      (\<lambda>act. uct_score node act cpuct
                                         (current_player (states_of (hp w1) state)))
                                      legal_actions of
                                 Inl e \<Rightarrow> Some (Inl e, w1)
                               | Inr action \<Rightarrow>
                                   (let path' = path @ [(k, action,
                                          current_player (states_of (hp w1) state))]
                                    in case apply_action (hp w1) state action of
                                         (Inl e, h2) \<Rightarrow> Some (Inl e, w1\<lparr>hp := h2\<rparr>)
                                       | (Inr u, h2) \<Rightarrow>
                                           simulate rnd cpuct fuel state path'
                                             (w1\<lparr>hp := h2\<rparr>))))))))"

text \<open>The loop of search: each simulation runs on a clone of the root state.\<close>

fun simulations :: "(nat \<Rightarrow> nat) \<Rightarrow> real \<Rightarrow> nat \<Rightarrow> nat \<Rightarrow> addr \<Rightarrow> world \<Rightarrow> ((error + unit) \<times> world) option" where
  "simulations rnd cpuct fuel 0 root_state w = Some (Inr (), w)"
| "simulations rnd cpuct fuel (Suc n) root_state w =
     (case clone (hp w) root_state of (c, h1) \<Rightarrow>
        (case simulate rnd cpuct fuel c [] (w\<lparr>hp := h1\<rparr>) of
           None \<Rightarrow> None
         | Some (Inl e, w1) \<Rightarrow> Some (Inl e, w1)
         | Some (Inr v, w1) \<Rightarrow> simulations rnd cpuct fuel n root_state w1))"

definition search ::
  "(nat \<Rightarrow> nat) \<Rightarrow> nat \<Rightarrow> real \<Rightarrow> int \<Rightarrow> addr \<Rightarrow> world \<Rightarrow> ((error + action option) \<times> world) option" where
  "search rnd fuel cpuct n_simulations root_state w =
     (let root_key = key (hp w) root_state;
          w0 = (if nodes w root_key = None
                then w\<lparr>nodes := (nodes w)(root_key \<mapsto> MCTSNode_init root_key)\<rparr> else w)
      in case simulations rnd cpuct fuel (nat n_simulations) root_state w0 of
           None \<Rightarrow> None
         | Some (Inl e, w1) \<Rightarrow> Some (Inl e, w1)
         | Some (Inr u, w1) \<Rightarrow>
             (case nodes w1 root_key of
                None \<Rightarrow> Some (Inl KeyError, w1)
              | Some root_node \<Rightarrow>
                  if N root_node = [] then Some (Inr None, w1)
                  else
                    (case max_by (\<lambda>x y. x > y) snd (N root_node) of
                       Inl e \<Rightarrow> Some (Inl e, w1)
                     | Inr item \<Rightarrow> Some (Inr (Some (fst item)), w1))))"

text \<open>choose_blue_move builds a new MCTS object, so the search starts from an empty table.\<close>

definition choose_blue_move ::
  "(nat \<Rightarrow> nat) \<Rightarrow> nat \<Rightarrow> addr \<Rightarrow> int \<Rightarrow> world \<Rightarrow> ((error + action option) \<times> world) option" where
  "choose_blue_move rnd fuel state n_simulations w =
     (if current_player (states_of (hp w) state) \<noteq> Blue then Some (Inl ValueError, w)
      else search rnd fuel default_cpuct n_simulations state (w\<lparr>nodes := Map.empty\<rparr>))"

section \<open>Well-formed positions\<close>

text \<open>Every position of a token list lies between HOME and the last finish square.\<close>

definition positions_ok :: "int list \<Rightarrow> bool" where
  "positions_ok tokens = list_all (\<lambda>pos. - 1 \<le> pos \<and> pos \<le> 43) tokens"

section \<open>Notions used to state the properties of the search\<close>

text \<open>The node under a key has recorded at least one action.\<close>

definition visited :: "(key \<rightharpoonup> MCTSNode) \<Rightarrow> key \<Rightarrow> bool" where
  "visited ns k = (case ns k of None \<Rightarrow> False | Some node \<Rightarrow> N node \<noteq> [])"

text \<open>A generator whose every draw is \<open>v\<close>, and the world of a caller who holds the store
  \<open>h\<close>, has no node table yet and has drawn nothing.\<close>

definition constant_rolls :: "nat \<Rightarrow> nat \<Rightarrow> nat" where
  "constant_rolls v i = v"

definition new_world :: "heap \<Rightarrow> world" where
  "new_world h = \<lparr>hp = h, nodes = Map.empty, rpos = 0\<rparr>"

text \<open>Two stores hold the same lists and the same state objects at every address below
  \<open>n\<close>; and a state object that lies, with both its lists, at or above \<open>n\<close>.\<close>

definition agree_below :: "addr \<Rightarrow> heap \<Rightarrow> heap \<Rightarrow> bool" where
  "agree_below n h h' =
     (\<forall>a<n. lists_of h' a = lists_of h a \<and> states_of h' a = states_of h a)"

definition owned :: "addr \<Rightarrow> heap \<Rightarrow> addr \<Rightarrow> bool" where
  "owned n h st =
     (n \<le> st \<and> n \<le> blue_tokens (states_of h st) \<and> n \<le> red_tokens (states_of h st))"

text \<open>No two tokens of a list share a position on the track or in the finish lane (home,
  - 1, may hold several).\<close>

definition no_stacking :: "int list \<Rightarrow> bool" where
  "no_stacking tokens = distinct (filter (\<lambda>pos. 0 \<le> pos) tokens)"



section \<open>Properties of the rules engine\<close>

lemmas board_consts = TRACK_LEN_def FINISH_LEN_def BLUE_START_def RED_START_def HOME_def

subsection \<open>Enumeration of the legal actions\<close>

lemma legal_step_acc: "legal_step t own d acc ip = acc @ legal_step t own d [] ip"
  by (simp add: legal_step_def Let_def)

lemma foldl_legal_step:
  "foldl (legal_step t own d) acc xs = acc @ concat (map (legal_step t own d []) xs)"
proof (induction xs arbitrary: acc)
  case Nil
  show ?case by simp
next
  case (Cons x xs)
  show ?case
    using Cons.IH [of "legal_step t own d acc x"] legal_step_acc [of t own d acc x]
    by simp
qed

lemma set_enumerate_py: "set (enumerate_py xs) = {(int i, xs ! i) | i. i < length xs}"
proof -
  have "\<exists>j. int i = map int [0..<length xs] ! j \<and> xs ! i = xs ! j \<and> j < length xs"
    if "i < length xs" for i
    using that by (intro exI [of _ i]) simp
  then show ?thesis
    by (auto simp: enumerate_py_def set_zip)
qed

lemma legal_step_single:
  "(idx, target) \<in> set (legal_step t own d [] (i, pos)) \<longleftrightarrow>
     idx = i \<and>
     (if pos = - 1 then d = 6 \<and> 0 \<notin> set own \<and> target = 0
      else pos < 44 \<and> target = pos + d \<and> target < 44 \<and>
           (if 40 \<le> target then target \<notin> set t else target \<notin> set own))"
  by (auto simp: legal_step_def Let_def board_consts)

lemma in_get_legal_actions:
  "(idx, target) \<in> set (get_legal_actions h self d) \<longleftrightarrow>
     (\<exists>i < length (lists_of h (current_tokens h self)).
        (idx, target) \<in> set (legal_step (lists_of h (current_tokens h self))
           (track_positions (lists_of h (current_tokens h self)) (current_player (states_of h self)))
           d [] (int i, lists_of h (current_tokens h self) ! i)))"
  by (auto simp: get_legal_actions_def Let_def foldl_legal_step set_enumerate_py)

text \<open>
  Claim C7. For every state and every die from 1 to 6, no action that get_legal_actions
  returns moves a token that stands on the last finish square 43, and no returned action
  has a target of 44 or more. The returned index is the index of a token of the mover.
\<close>

theorem legal_actions_immobile_no_overshoot:
  assumes "1 \<le> d" and "d \<le> 6"
    and "(idx, target) \<in> set (get_legal_actions h self d)"
  shows "target < TRACK_LEN + FINISH_LEN \<and> 0 \<le> idx \<and>
         nat idx < length (lists_of h (current_tokens h self)) \<and>
         lists_of h (current_tokens h self) ! nat idx \<noteq> TRACK_LEN + FINISH_LEN - 1"
proof -
  from assms(3) obtain i where i: "i < length (lists_of h (current_tokens h self))"
    and m: "(idx, target) \<in> set (legal_step (lists_of h (current_tokens h self))
           (track_positions (lists_of h (current_tokens h self)) (current_player (states_of h self)))
           d [] (int i, lists_of h (current_tokens h self) ! i))"
    unfolding in_get_legal_actions by blast
  from m have idx: "idx = int i" by (simp add: legal_step_single)
  from m assms(1) have "target < 44 \<and> lists_of h (current_tokens h self) ! i \<noteq> 43"
    by (auto simp: legal_step_single split: if_splits)
  with idx i show ?thesis by (simp add: board_consts)
qed

theorem legal_actions_immobile_no_overshoot_witness:
  "(1::int) \<le> 1 \<and> (1::int) \<le> 6 \<and>
   (3, 6) \<in> set (get_legal_actions (board [43, 42, - 1, 5] [- 1, - 1, - 1, - 1] Blue) 2 1) \<and>
   (6::int) < TRACK_LEN + FINISH_LEN \<and>
   lists_of (board [43, 42, - 1, 5] [- 1, - 1, - 1, - 1] Blue)
     (current_tokens (board [43, 42, - 1, 5] [- 1, - 1, - 1, - 1] Blue) 2) ! nat 3
     \<noteq> TRACK_LEN + FINISH_LEN - 1"
proof -
  have m: "(3, 6) \<in> set (get_legal_actions (board [43, 42, - 1, 5] [- 1, - 1, - 1, - 1] Blue) 2 1)"
    by code_simp
  show ?thesis
    using m legal_actions_immobile_no_overshoot [OF _ _ m] by (simp add: board_consts)
qed

subsection \<open>Winner and terminal states\<close>

lemmas board_unfold = board_def LudoState_init_def empty_heap_def Let_def

lemma all_finished_iff:
  "list_all (\<lambda>pos. pos \<le> 43) tokens \<Longrightarrow>
   all_finished tokens \<longleftrightarrow> list_all (\<lambda>pos. pos = 43) tokens"
  by (induction tokens) (auto simp: all_finished_def board_consts)

lemma positions_ok_le: "positions_ok tokens \<Longrightarrow> list_all (\<lambda>pos. pos \<le> 43) tokens"
  by (simp add: positions_ok_def list_all_iff)

text \<open>
  Claim C6, as stated, fails: when all tokens of both players stand on 43, winner reports
  Blue, so Red is not reported although all of Red's tokens equal 43.
\<close>

theorem winner_blue_first_counterexample:
  "positions_ok (lists_of (board [43, 43, 43, 43] [43, 43, 43, 43] Red)
      (blue_tokens (states_of (board [43, 43, 43, 43] [43, 43, 43, 43] Red) 2))) \<and>
   positions_ok (lists_of (board [43, 43, 43, 43] [43, 43, 43, 43] Red)
      (red_tokens (states_of (board [43, 43, 43, 43] [43, 43, 43, 43] Red) 2))) \<and>
   lists_of (board [43, 43, 43, 43] [43, 43, 43, 43] Red)
      (red_tokens (states_of (board [43, 43, 43, 43] [43, 43, 43, 43] Red) 2)) = [43, 43, 43, 43] \<and>
   winner (board [43, 43, 43, 43] [43, 43, 43, 43] Red) 2 \<noteq> Some Red"
  by (simp add: board_unfold winner_def all_finished_def positions_ok_def board_consts)

text \<open>
  Claim C6, amended. For every state whose positions all lie in [-1, 43]: Blue is reported
  as the winner if and only if all of Blue's tokens equal 43; Red is reported as the winner
  if and only if all of Red's tokens equal 43 and not all of Blue's do; the state is
  terminal if and only if all tokens of at least one player equal 43. So a player with a
  token below 43 does not make the state terminal.
\<close>

theorem winner_and_terminal:
  assumes "positions_ok (lists_of h (blue_tokens (states_of h self)))"
    and "positions_ok (lists_of h (red_tokens (states_of h self)))"
  shows "(winner h self = Some Blue \<longleftrightarrow>
            list_all (\<lambda>pos. pos = 43) (lists_of h (blue_tokens (states_of h self)))) \<and>
         (winner h self = Some Red \<longleftrightarrow>
            list_all (\<lambda>pos. pos = 43) (lists_of h (red_tokens (states_of h self))) \<and>
            \<not> list_all (\<lambda>pos. pos = 43) (lists_of h (blue_tokens (states_of h self)))) \<and>
         (is_terminal h self \<longleftrightarrow>
            list_all (\<lambda>pos. pos = 43) (lists_of h (blue_tokens (states_of h self))) \<or>
            list_all (\<lambda>pos. pos = 43) (lists_of h (red_tokens (states_of h self))))"
  using all_finished_iff [OF positions_ok_le [OF assms(1)]]
        all_finished_iff [OF positions_ok_le [OF assms(2)]]
  by (simp add: winner_def is_terminal_def Let_def)

theorem winner_and_terminal_witness:
  "positions_ok (lists_of (board [43, 43, 43, 42] [43, 43, 43, 43] Blue)
      (blue_tokens (states_of (board [43, 43, 43, 42] [43, 43, 43, 43] Blue) 2))) \<and>
   positions_ok (lists_of (board [43, 43, 43, 42] [43, 43, 43, 43] Blue)
      (red_tokens (states_of (board [43, 43, 43, 42] [43, 43, 43, 43] Blue) 2))) \<and>
   winner (board [43, 43, 43, 42] [43, 43, 43, 43] Blue) 2 = Some Red \<and>
   winner (board [43, 43, 43, 42] [43, 43, 43, 43] Blue) 2 \<noteq> Some Blue \<and>
   is_terminal (board [43, 43, 43, 42] [43, 43, 43, 43] Blue) 2"
proof -
  let ?h = "board [43, 43, 43, 42] [43, 43, 43, 43] Blue"
  have b: "positions_ok (lists_of ?h (blue_tokens (states_of ?h 2)))"
    by (simp add: board_unfold positions_ok_def)
  have r: "positions_ok (lists_of ?h (red_tokens (states_of ?h 2)))"
    by (simp add: board_unfold positions_ok_def)
  show ?thesis
    using b r winner_and_terminal [OF b r] by (simp add: board_unfold)
qed

subsection \<open>apply_action\<close>

text \<open>
  Claim C9. Whenever apply_action raises its ValueError (a token at home and a target
  other than 0), the store is the one before the call: no token list, no state object and
  no turn has changed.
\<close>

theorem apply_action_error_atomic:
  assumes "fst (apply_action h self act) = Inl ValueError"
  shows "snd (apply_action h self act) = h"
  using assms by (auto simp: apply_action_def Let_def split: option.splits if_splits)

theorem apply_action_error_atomic_witness:
  "fst (apply_action (board [- 1, 3, - 1, - 1] [0, - 1, - 1, - 1] Blue) 2 (0, 5)) = Inl ValueError \<and>
   snd (apply_action (board [- 1, 3, - 1, - 1] [0, - 1, - 1, - 1] Blue) 2 (0, 5)) =
     board [- 1, 3, - 1, - 1] [0, - 1, - 1, - 1] Blue"
proof -
  have e: "fst (apply_action (board [- 1, 3, - 1, - 1] [0, - 1, - 1, - 1] Blue) 2 (0, 5)) = Inl ValueError"
    by (simp add: apply_action_def board_unfold current_tokens_def py_index_def board_consts)
  show ?thesis using e apply_action_error_atomic [OF e] by simp
qed

lemma capture_fold:
  "n \<le> length xs \<Longrightarrow>
   foldl (capture_step tg p) xs [0..<n] =
     map (\<lambda>pos. if 0 \<le> pos \<and> pos < TRACK_LEN \<and> track_to_global pos p = tg then HOME else pos)
       (take n xs) @ drop n xs"
proof (induction n)
  case 0
  show ?case by simp
next
  case (Suc n)
  let ?f = "\<lambda>pos. if 0 \<le> pos \<and> pos < TRACK_LEN \<and> track_to_global pos p = tg then HOME else pos"
  have n: "n < length xs" using Suc.prems by simp
  have d: "drop n xs = xs ! n # drop (Suc n) xs"
    using n by (simp add: Cons_nth_drop_Suc)
  have "foldl (capture_step tg p) xs [0..<Suc n] =
          capture_step tg p (map ?f (take n xs) @ drop n xs) n"
    using Suc.IH n by simp
  also have "\<dots> = map ?f (take n xs) @ ?f (xs ! n) # drop (Suc n) xs"
    using n by (simp add: capture_step_def Let_def nth_append list_update_append d)
  also have "\<dots> = map ?f (take (Suc n) xs) @ drop (Suc n) xs"
    using n by (simp add: take_Suc_conv_app_nth)
  finally show ?case .
qed

lemma capture_fold_all:
  "foldl (capture_step tg p) xs [0..<length xs] =
     map (\<lambda>pos. if 0 \<le> pos \<and> pos < TRACK_LEN \<and> track_to_global pos p = tg then HOME else pos) xs"
  using capture_fold [of "length xs" xs tg p] by simp

lemma set_track_positions:
  "set (track_positions xs p) = {track_to_global pos p | pos. pos \<in> set xs \<and> 0 \<le> pos \<and> pos < TRACK_LEN}"
  by (induction xs) auto

lemma capture_none:
  "tg \<notin> set (track_positions xs p) \<Longrightarrow>
   map (\<lambda>pos. if 0 \<le> pos \<and> pos < TRACK_LEN \<and> track_to_global pos p = tg then HOME else pos) xs = xs"
  by (induction xs) (auto split: if_splits)

lemma current_opponent_distinct:
  "blue_tokens (states_of h self) \<noteq> red_tokens (states_of h self) \<Longrightarrow>
   current_tokens h self \<noteq> opponent_tokens h self"
  by (auto simp: current_tokens_def opponent_tokens_def Let_def)

lemma apply_action_success:
  "fst (apply_action h self act) = Inr () \<longleftrightarrow>
     (\<exists>k. py_index (length (lists_of h (current_tokens h self))) (fst act) = Some k \<and>
          \<not> (lists_of h (current_tokens h self) ! k = HOME \<and> snd act \<noteq> 0))"
  by (auto simp: apply_action_def Let_def split: option.splits)

lemma apply_action_opponent:
  assumes "blue_tokens (states_of h self) \<noteq> red_tokens (states_of h self)"
    and "fst (apply_action h self (idx, target)) = Inr ()"
  shows "lists_of (snd (apply_action h self (idx, target))) (opponent_tokens h self) =
           (if target < TRACK_LEN then
              map (\<lambda>pos. if 0 \<le> pos \<and> pos < TRACK_LEN \<and>
                            track_to_global pos (other_player (current_player (states_of h self))) =
                            track_to_global target (current_player (states_of h self))
                          then HOME else pos)
                (lists_of h (opponent_tokens h self))
            else lists_of h (opponent_tokens h self))"
proof -
  let ?tok = "current_tokens h self" and ?opp = "opponent_tokens h self"
  let ?me = "current_player (states_of h self)"
  let ?tg = "track_to_global target ?me"
  let ?f = "\<lambda>pos. if 0 \<le> pos \<and> pos < TRACK_LEN \<and> track_to_global pos (other_player ?me) = ?tg
                 then HOME else pos"
  from assms(2) obtain k where k: "py_index (length (lists_of h ?tok)) idx = Some k"
    and ok: "\<not> (lists_of h ?tok ! k = HOME \<and> target \<noteq> 0)"
    by (auto simp: apply_action_success)
  have ne: "?tok \<noteq> ?opp" by (rule current_opponent_distinct [OF assms(1)])
  have cap: "lists_of (capture_opponent h self ?tg) ?opp = map ?f (lists_of h ?opp)"
    by (simp add: capture_opponent_def Let_def capture_fold_all)
  show ?thesis
    using k ok ne cap capture_none [of ?tg "lists_of h ?opp" "other_player ?me"]
    by (cases "?tg \<in> set (track_positions (lists_of h ?opp) (other_player ?me))")
       (auto simp: apply_action_def Let_def)
qed

text \<open>
  Claim C4, as stated, fails in its last part: the spec's first capture scenario (Blue on
  relative 5, Red on its relative 0, Blue's action (0, 20)) is said not to capture, but the
  target, relative 20 of Blue, is absolute square 20, where Red's token stands, and
  apply_action sends that token home.
\<close>

theorem capture_scenario_one_counterexample:
  "fst (apply_action (board [5, - 1, - 1, - 1] [0, - 1, - 1, - 1] Blue) 2 (0, 20)) = Inr () \<and>
   lists_of (board [5, - 1, - 1, - 1] [0, - 1, - 1, - 1] Blue)
     (red_tokens (states_of (board [5, - 1, - 1, - 1] [0, - 1, - 1, - 1] Blue) 2)) = [0, - 1, - 1, - 1] \<and>
   lists_of (snd (apply_action (board [5, - 1, - 1, - 1] [0, - 1, - 1, - 1] Blue) 2 (0, 20)))
     (red_tokens (states_of (board [5, - 1, - 1, - 1] [0, - 1, - 1, - 1] Blue) 2)) = [- 1, - 1, - 1, - 1] \<and>
   lists_of (snd (apply_action (board [5, - 1, - 1, - 1] [0, - 1, - 1, - 1] Blue) 2 (0, 20)))
     (blue_tokens (states_of (board [5, - 1, - 1, - 1] [0, - 1, - 1, - 1] Blue) 2)) = [20, - 1, - 1, - 1]"
  by code_simp

text \<open>
  Claim C4, amended. For every state whose two token lists are distinct objects and every
  action that apply_action accepts: when the target is on the shared track (below 40), the
  opponent's list afterwards is the one before with exactly the tokens on the track whose
  absolute square equals the target's absolute square sent home, all others (at home, in
  the finish lane, on other squares) unchanged; when the target is 40 or more the
  opponent's list is unchanged. Absolute squares are position mod 40 for Blue and
  (20 + position) mod 40 for Red. The spec's second scenario (Blue's action (0, 20) against
  Red on its relative 0) captures; so does the first, which has the same action and the
  same Red list.
\<close>

theorem apply_action_capture:
  assumes "blue_tokens (states_of h self) \<noteq> red_tokens (states_of h self)"
    and "fst (apply_action h self (idx, target)) = Inr ()"
  shows "lists_of (snd (apply_action h self (idx, target))) (opponent_tokens h self) =
           (if target < TRACK_LEN then
              map (\<lambda>pos. if 0 \<le> pos \<and> pos < TRACK_LEN \<and>
                            track_to_global pos (other_player (current_player (states_of h self))) =
                            track_to_global target (current_player (states_of h self))
                          then HOME else pos)
                (lists_of h (opponent_tokens h self))
            else lists_of h (opponent_tokens h self)) \<and>
         track_to_global target Blue = target mod 40 \<and>
         track_to_global target Red = (20 + target) mod 40"
  using apply_action_opponent [OF assms]
  by (simp add: track_to_global_def board_consts)

theorem apply_action_capture_witness:
  "blue_tokens (states_of (board [15, - 1, - 1, - 1] [0, - 1, - 1, - 1] Blue) 2) \<noteq>
     red_tokens (states_of (board [15, - 1, - 1, - 1] [0, - 1, - 1, - 1] Blue) 2) \<and>
   fst (apply_action (board [15, - 1, - 1, - 1] [0, - 1, - 1, - 1] Blue) 2 (0, 20)) = Inr () \<and>
   lists_of (snd (apply_action (board [15, - 1, - 1, - 1] [0, - 1, - 1, - 1] Blue) 2 (0, 20)))
     (opponent_tokens (board [15, - 1, - 1, - 1] [0, - 1, - 1, - 1] Blue) 2) = [- 1, - 1, - 1, - 1]"
proof -
  let ?h = "board [15, - 1, - 1, - 1] [0, - 1, - 1, - 1] Blue"
  have d: "blue_tokens (states_of ?h 2) \<noteq> red_tokens (states_of ?h 2)"
    by (simp add: board_unfold)
  have s: "fst (apply_action ?h 2 (0, 20)) = Inr ()"
    by (simp add: apply_action_success board_unfold current_tokens_def py_index_def board_consts)
  have o: "lists_of ?h (opponent_tokens ?h 2) = [0, - 1, - 1, - 1]"
    "current_player (states_of ?h 2) = Blue"
    by (simp_all add: board_unfold opponent_tokens_def)
  show ?thesis
    using d s apply_action_capture [OF d s]
    by (simp add: o track_to_global_def other_player_def board_consts)
qed

subsection \<open>Legal actions are accepted\<close>

lemma py_index_nat: "i < n \<Longrightarrow> py_index n (int i) = Some i"
  by (simp add: py_index_def)

lemma apply_legal:
  assumes "a \<in> set (get_legal_actions h st d)"
    and "lists_of h' (current_tokens h' st') = lists_of h (current_tokens h st)"
  shows "fst (apply_action h' st' a) = Inr ()"
proof -
  obtain idx target where a: "a = (idx, target)" by (cases a)
  from assms(1) obtain i where i: "i < length (lists_of h (current_tokens h st))"
    and m: "(idx, target) \<in> set (legal_step (lists_of h (current_tokens h st))
           (track_positions (lists_of h (current_tokens h st)) (current_player (states_of h st)))
           d [] (int i, lists_of h (current_tokens h st) ! i))"
    unfolding a in_get_legal_actions by blast
  from m have "idx = int i" and "lists_of h (current_tokens h st) ! i = - 1 \<longrightarrow> target = 0"
    by (auto simp: legal_step_single split: if_splits)
  then show ?thesis
    using i py_index_nat [OF i] by (simp add: a apply_action_success assms(2) board_consts)
qed

subsection \<open>Self-stacking when Red moves\<close>

text \<open>
  get_legal_actions tests a target, which is a position relative to the mover, against
  own_track_positions, which _track_positions has translated to absolute squares. For
  Blue the two coincide; for Red they differ by 20.

  Claim C2 on the code: with Red to move, Red's token 0 on Red's relative position 0 and a
  die of 6, the three tokens at home are all offered the move to relative position 0,
  which Red occupies; and with Red's token on relative 20 (absolute 0) and relative
  position 0 free, no token at home is offered a move.
\<close>

theorem home_entry_red_stacks:
  "current_player (states_of (board [- 1, - 1, - 1, - 1] [0, - 1, - 1, - 1] Red) 2) = Red \<and>
   lists_of (board [- 1, - 1, - 1, - 1] [0, - 1, - 1, - 1] Red)
     (current_tokens (board [- 1, - 1, - 1, - 1] [0, - 1, - 1, - 1] Red) 2) = [0, - 1, - 1, - 1] \<and>
   get_legal_actions (board [- 1, - 1, - 1, - 1] [0, - 1, - 1, - 1] Red) 2 6 =
     [(0, 6), (1, 0), (2, 0), (3, 0)] \<and>
   get_legal_actions (board [- 1, - 1, - 1, - 1] [20, - 1, - 1, - 1] Red) 2 6 = [(0, 26)]"
  by code_simp

text \<open>
  Claim C1 on the code: with Red to move, Red's tokens on relative 3 and 5 and a die of 2,
  the action (0, 5) is returned, and applying it puts two of Red's tokens on relative
  position 5.
\<close>

theorem legal_move_red_stacks:
  "current_player (states_of (board [- 1, - 1, - 1, - 1] [3, 5, - 1, - 1] Red) 2) = Red \<and>
   lists_of (board [- 1, - 1, - 1, - 1] [3, 5, - 1, - 1] Red)
     (current_tokens (board [- 1, - 1, - 1, - 1] [3, 5, - 1, - 1] Red) 2) = [3, 5, - 1, - 1] \<and>
   get_legal_actions (board [- 1, - 1, - 1, - 1] [3, 5, - 1, - 1] Red) 2 2 = [(0, 5), (1, 7)] \<and>
   fst (apply_action (board [- 1, - 1, - 1, - 1] [3, 5, - 1, - 1] Red) 2 (0, 5)) = Inr () \<and>
   lists_of (snd (apply_action (board [- 1, - 1, - 1, - 1] [3, 5, - 1, - 1] Red) 2 (0, 5)))
     (current_tokens (board [- 1, - 1, - 1, - 1] [3, 5, - 1, - 1] Red) 2) = [5, 5, - 1, - 1]"
  by code_simp

subsection \<open>The enumeration when Blue moves\<close>

lemma track_positions_blue:
  "set (track_positions tokens Blue) = {pos \<in> set tokens. 0 \<le> pos \<and> pos < 40}"
  by (induction tokens) (auto simp: track_to_global_def board_consts)

lemma legal_index:
  "(idx, target) \<in> set (get_legal_actions h self d) \<longleftrightarrow>
     0 \<le> idx \<and> nat idx < length (lists_of h (current_tokens h self)) \<and>
     (idx, target) \<in> set (legal_step (lists_of h (current_tokens h self))
        (track_positions (lists_of h (current_tokens h self)) (current_player (states_of h self)))
        d [] (idx, lists_of h (current_tokens h self) ! nat idx))"
proof -
  have "(\<exists>i<n. (idx, target) \<in> set (legal_step t own d [] (int i, t ! i))) \<longleftrightarrow>
        0 \<le> idx \<and> nat idx < n \<and> (idx, target) \<in> set (legal_step t own d [] (idx, t ! nat idx))"
    for n t own
  proof
    assume "\<exists>i<n. (idx, target) \<in> set (legal_step t own d [] (int i, t ! i))"
    then obtain i where i: "i < n" "(idx, target) \<in> set (legal_step t own d [] (int i, t ! i))"
      by blast
    from i(2) have "idx = int i" by (simp add: legal_step_single)
    with i show "0 \<le> idx \<and> nat idx < n \<and> (idx, target) \<in> set (legal_step t own d [] (idx, t ! nat idx))"
      by simp
  next
    assume a: "0 \<le> idx \<and> nat idx < n \<and> (idx, target) \<in> set (legal_step t own d [] (idx, t ! nat idx))"
    then show "\<exists>i<n. (idx, target) \<in> set (legal_step t own d [] (int i, t ! i))"
      by (intro exI [of _ "nat idx"]) simp
  qed
  then show ?thesis unfolding in_get_legal_actions by simp
qed

text \<open>With Blue to move, whose relative positions are the absolute squares, a token at
  home is offered a move exactly for a die of 6 with relative position 0 free, and the move
  is to relative position 0.\<close>

lemma home_entry_blue:
  assumes "current_player (states_of h self) = Blue"
    and "i < length (lists_of h (current_tokens h self))"
    and "lists_of h (current_tokens h self) ! i = HOME"
  shows "(int i, target) \<in> set (get_legal_actions h self d) \<longleftrightarrow>
           d = 6 \<and> 0 \<notin> set (lists_of h (current_tokens h self)) \<and> target = 0"
  using assms
  by (auto simp: legal_index legal_step_single track_positions_blue board_consts)

text \<open>What the enumeration does for either mover: the test is against the absolute squares
  of the mover's tokens on the track.\<close>

lemma home_entry_offered:
  assumes "i < length (lists_of h (current_tokens h self))"
    and "lists_of h (current_tokens h self) ! i = HOME"
  shows "(int i, target) \<in> set (get_legal_actions h self d) \<longleftrightarrow>
           d = 6 \<and> target = 0 \<and>
           0 \<notin> set (track_positions (lists_of h (current_tokens h self))
                      (current_player (states_of h self)))"
  using assms
  by (auto simp: legal_index legal_step_single board_consts)

lemma legal_target_blue:
  assumes "current_player (states_of h self) = Blue"
    and "positions_ok (lists_of h (current_tokens h self))"
    and "0 \<le> d"
    and "(idx, target) \<in> set (get_legal_actions h self d)"
  shows "target \<notin> set (lists_of h (current_tokens h self)) \<and> 0 \<le> target \<and> target \<le> 43"
proof -
  let ?t = "lists_of h (current_tokens h self)"
  from assms(4) have i: "0 \<le> idx" "nat idx < length ?t"
    and m: "(idx, target) \<in> set (legal_step ?t (track_positions ?t Blue) d [] (idx, ?t ! nat idx))"
    by (simp_all add: legal_index assms(1))
  from assms(2) i(2) have r: "- 1 \<le> ?t ! nat idx"
    by (simp add: positions_ok_def list_all_length)
  from m r assms(3) show ?thesis
    by (auto simp: legal_step_single track_positions_blue split: if_splits)
qed

lemma no_stacking_update:
  "no_stacking xs \<Longrightarrow> t \<notin> set xs \<Longrightarrow> no_stacking (xs[i := t])"
proof (induction xs arbitrary: i)
  case Nil
  then show ?case by simp
next
  case (Cons x xs)
  have s: "set (xs[j := t]) \<subseteq> insert t (set xs)" for j
    by (rule set_update_subset_insert)
  show ?case
  proof (cases i)
    case 0
    with Cons.prems show ?thesis by (auto simp: no_stacking_def split: if_splits)
  next
    case (Suc j)
    from Cons.prems have "no_stacking xs" "t \<notin> set xs" by (auto simp: no_stacking_def split: if_splits)
    from Cons.IH [OF this, of j] have ih: "no_stacking (xs[j := t])" .
    from Cons.prems s [of j] ih Suc show ?thesis
      by (auto simp: no_stacking_def split: if_splits)
  qed
qed

lemma positions_ok_update:
  "positions_ok xs \<Longrightarrow> - 1 \<le> t \<Longrightarrow> t \<le> 43 \<Longrightarrow> positions_ok (xs[i := t])"
  using set_update_subset_insert [of xs i t]
  by (auto simp: positions_ok_def list_all_iff)

lemma apply_action_own:
  assumes "blue_tokens (states_of h self) \<noteq> red_tokens (states_of h self)"
    and "py_index (length (lists_of h (current_tokens h self))) idx = Some k"
    and "fst (apply_action h self (idx, target)) = Inr ()"
  shows "lists_of (snd (apply_action h self (idx, target))) (current_tokens h self) =
           (lists_of h (current_tokens h self))[k := target]"
proof -
  have ne: "current_tokens h self \<noteq> opponent_tokens h self"
    by (rule current_opponent_distinct [OF assms(1)])
  from assms(3) assms(2) have ok: "\<not> (lists_of h (current_tokens h self) ! k = HOME \<and> target \<noteq> 0)"
    by (auto simp: apply_action_success)
  show ?thesis
    using assms(2) ok ne
    by (auto simp: apply_action_def capture_opponent_def Let_def)
qed

text \<open>With Blue to move, a legal action applied to a state without stacked Blue tokens
  and with all positions in range leaves Blue's tokens unstacked and every position of both
  players in range.\<close>

lemma legal_move_blue_invariant:
  assumes blue: "current_player (states_of h self) = Blue"
    and refs: "blue_tokens (states_of h self) \<noteq> red_tokens (states_of h self)"
    and ok: "positions_ok (lists_of h (current_tokens h self))"
       "positions_ok (lists_of h (opponent_tokens h self))"
    and ns: "no_stacking (lists_of h (current_tokens h self))"
    and d: "1 \<le> d"
    and a: "(idx, target) \<in> set (get_legal_actions h self d)"
  shows "no_stacking (lists_of (snd (apply_action h self (idx, target))) (current_tokens h self)) \<and>
         positions_ok (lists_of (snd (apply_action h self (idx, target))) (current_tokens h self)) \<and>
         positions_ok (lists_of (snd (apply_action h self (idx, target))) (opponent_tokens h self))"
proof -
  let ?t = "lists_of h (current_tokens h self)"
  from a have i: "0 \<le> idx" "nat idx < length ?t" by (simp_all add: legal_index)
  then have k: "py_index (length ?t) idx = Some (nat idx)" by (simp add: py_index_def)
  have s: "fst (apply_action h self (idx, target)) = Inr ()"
    by (rule apply_legal [OF a]) simp
  from d have "0 \<le> d" by simp
  note tg = legal_target_blue [OF blue ok(1) this a]
  have own: "lists_of (snd (apply_action h self (idx, target))) (current_tokens h self) =
               ?t[nat idx := target]"
    by (rule apply_action_own [OF refs k s])
  have opp: "positions_ok (lists_of (snd (apply_action h self (idx, target))) (opponent_tokens h self))"
    using apply_action_opponent [OF refs s] ok(2)
    by (auto simp: positions_ok_def list_all_iff board_consts)
  from tg ns ok(1) own opp show ?thesis
    by (simp add: no_stacking_update positions_ok_update)
qed

section \<open>Properties of the search\<close>

subsection \<open>The upper-confidence score\<close>

text \<open>
  Claim C8. For every node, action, exploration constant and mover: the score is infinite
  when the action's visit count is 0 (absent counts as 0), and otherwise it is
  sign * (W(a) / N(a)) + c * sqrt (ln (T + 1) / N(a)), with T the node's total visits and
  sign +1 for Blue and -1 for Red, on the first summand only. An infinite score exceeds
  every finite one. The default exploration constant is 1.4. (Floats are read as reals.)
\<close>

theorem uct_score_formula:
  "uct_score node a c p =
     (if dict_get (N node) a 0 = 0 then PosInf
      else Score ((if p = Blue then 1 else - 1) *
                    (dict_get (W node) a 0 / real (dict_get (N node) a 0)) +
                  c * sqrt (ln (real (total_visits node + 1)) / real (dict_get (N node) a 0)))) \<and>
   score_gt PosInf (Score x) \<and>
   default_cpuct = 1.4"
  by (simp add: uct_score_def q_value_def Let_def default_cpuct_def)

theorem uct_score_formula_witness:
  "uct_score \<lparr>state_key = (Blue, [], []), children = [], N = [((0, 5), 2)], W = [((0, 5), 1)],
      total_visits = 3\<rparr> (0, 5) default_cpuct Red =
     Score (- (1 / 2) + 1.4 * sqrt (ln 4 / 2)) \<and>
   uct_score \<lparr>state_key = (Blue, [], []), children = [], N = [((0, 5), 2)], W = [((0, 5), 1)],
      total_visits = 3\<rparr> (0, 5) default_cpuct Blue =
     Score (1 / 2 + 1.4 * sqrt (ln 4 / 2)) \<and>
   uct_score \<lparr>state_key = (Blue, [], []), children = [], N = [((0, 5), 2)], W = [((0, 5), 1)],
      total_visits = 3\<rparr> (1, 0) default_cpuct Blue = PosInf"
  using uct_score_formula [of "\<lparr>state_key = (Blue, [], []), children = [], N = [((0, 5), 2)],
      W = [((0, 5), 1)], total_visits = 3\<rparr>" "(0, 5)" default_cpuct Red 0]
    uct_score_formula [of "\<lparr>state_key = (Blue, [], []), children = [], N = [((0, 5), 2)],
      W = [((0, 5), 1)], total_visits = 3\<rparr>" "(0, 5)" default_cpuct Blue 0]
    uct_score_formula [of "\<lparr>state_key = (Blue, [], []), children = [], N = [((0, 5), 2)],
      W = [((0, 5), 1)], total_visits = 3\<rparr>" "(1, 0)" default_cpuct Blue 0]
  by (simp add: dict_get_def)

subsection \<open>No step of a playout raises\<close>

lemma randint_frame: "randint rnd lo hi w = (d, w') \<Longrightarrow> hp w' = hp w \<and> nodes w' = nodes w"
  by (auto simp: randint_def)

lemma choice_ok:
  "xs \<noteq> [] \<Longrightarrow> \<exists>a w'. choice rnd xs w = (Inr a, w') \<and> a \<in> set xs \<and> hp w' = hp w \<and> nodes w' = nodes w"
  by (simp add: choice_def)

lemma max_fold_in_set:
  "foldl (\<lambda>best y. if gt (f y) (f best) then y else best) x xs \<in> set (x # xs)"
proof (induction xs arbitrary: x)
  case Nil
  show ?case by simp
next
  case (Cons y ys)
  show ?case
    using Cons.IH [of y] Cons.IH [of x] by auto
qed

lemma max_by_ok: "xs \<noteq> [] \<Longrightarrow> \<exists>a. max_by gt f xs = Inr a \<and> a \<in> set xs"
  using max_fold_in_set [of gt f] by (cases xs) auto

lemma rollout_ok: "\<exists>v w'. rollout rnd d st w = (Inr v, w') \<and> nodes w' = nodes w"
proof (induction d arbitrary: w)
  case 0
  show ?case by simp
next
  case (Suc d)
  show ?case
  proof (cases "is_terminal (hp w) st")
    case True
    then show ?thesis by (simp split: option.split player.split)
  next
    case False
    obtain dice w1 where r: "randint rnd 1 6 w = (dice, w1)" by (cases "randint rnd 1 6 w")
    note f1 = randint_frame [OF r]
    show ?thesis
    proof (cases "get_legal_actions (hp w1) st dice = []")
      case True
      then show ?thesis
        using False r f1 Suc.IH [of "w1\<lparr>hp := pass_turn (hp w1) st\<rparr>"] by simp
    next
      case ne: False
      from choice_ok [OF ne, of rnd w1] obtain a w2
        where c: "choice rnd (get_legal_actions (hp w1) st dice) w1 = (Inr a, w2)"
          and a: "a \<in> set (get_legal_actions (hp w1) st dice)"
          and f2: "hp w2 = hp w1" "nodes w2 = nodes w1" by blast
      have "fst (apply_action (hp w2) st a) = Inr ()"
        using apply_legal [OF a, of "hp w2" st] f2 by simp
      then obtain h3 where ap: "apply_action (hp w2) st a = (Inr (), h3)"
        by (cases "apply_action (hp w2) st a") auto
      show ?thesis
        using False r ne c ap f1 f2 Suc.IH [of "w2\<lparr>hp := h3\<rparr>"] by simp
    qed
  qed
qed

subsection \<open>The branches of one simulation\<close>

lemma clone_content:
  assumes "clone h st = (c, h')"
  shows "c = fresh h + 2" and "fresh h' = fresh h + 3"
    and "lists_of h' (current_tokens h' c) = lists_of h (current_tokens h st)"
    and "current_player (states_of h' c) = current_player (states_of h st)"
    and "key h' c = key h st"
    and "blue_tokens (states_of h' c) = fresh h" and "red_tokens (states_of h' c) = fresh h + 1"
  using assms
  by (auto simp: clone_def LudoState_init_def Let_def current_tokens_def key_def)

lemma backpropagate_eq:
  "backpropagate path won w =
     (case won of Some Blue \<Rightarrow> 1 | Some Red \<Rightarrow> - 1 | None \<Rightarrow> 0,
      w\<lparr>nodes := foldl (backprop_step (case won of Some Blue \<Rightarrow> 1 | Some Red \<Rightarrow> - 1 | None \<Rightarrow> 0))
         (nodes w) path\<rparr>)"
  by (simp add: backpropagate_def Let_def)

lemma simulate_leaf_result:
  obtains v w2 outcome where
    "rollout rnd default_max_depth st (w\<lparr>nodes := (nodes w)(key (hp w) st \<mapsto> MCTSNode_init (key (hp w) st))\<rparr>)
       = (Inr v, w2)"
    and "nodes w2 = (nodes w)(key (hp w) st \<mapsto> MCTSNode_init (key (hp w) st))"
    and "simulate_leaf rnd st path w =
           (Inr outcome, w2\<lparr>nodes := foldl (backprop_step outcome) (nodes w2) path\<rparr>)"
proof -
  let ?w1 = "w\<lparr>nodes := (nodes w)(key (hp w) st \<mapsto> MCTSNode_init (key (hp w) st))\<rparr>"
  from rollout_ok [of rnd default_max_depth st ?w1] obtain v w2
    where r: "rollout rnd default_max_depth st ?w1 = (Inr v, w2)" and n: "nodes w2 = nodes ?w1"
    by blast
  show thesis
    by (rule that [OF r]) (use n r in \<open>simp_all add: simulate_leaf_def Let_def backpropagate_eq\<close>)
qed

lemma simulate_expand_result:
  assumes "untried \<noteq> []" and "set untried \<subseteq> set (get_legal_actions (hp w) st d)"
  obtains action w1 c h2 h3 v w5 outcome where
    "choice rnd untried w = (Inr action, w1)" and "action \<in> set untried"
    and "hp w1 = hp w" and "nodes w1 = nodes w"
    and "clone (hp w) st = (c, h2)"
    and "apply_action h2 c action = (Inr (), h3)"
    and "rollout rnd default_max_depth c
           (w1\<lparr>hp := h3, nodes := (nodes w)(k \<mapsto>
              node\<lparr>children := AList.update action (key h3 c) (children node)\<rparr>)\<rparr>) = (Inr v, w5)"
    and "nodes w5 = (nodes w)(k \<mapsto> node\<lparr>children := AList.update action (key h3 c) (children node)\<rparr>)"
    and "simulate_expand rnd st k node path untried w =
           (Inr outcome, w5\<lparr>nodes := foldl (backprop_step outcome) (nodes w5)
              (path @ [(k, action, current_player (states_of h3 st))])\<rparr>)"
proof -
  from choice_ok [OF assms(1), of rnd w] obtain action w1
    where ch: "choice rnd untried w = (Inr action, w1)" and a: "action \<in> set untried"
      and f: "hp w1 = hp w" "nodes w1 = nodes w" by blast
  obtain c h2 where cl: "clone (hp w) st = (c, h2)" by (cases "clone (hp w) st")
  have "fst (apply_action h2 c action) = Inr ()"
    using apply_legal [of action "hp w" st d h2 c] a assms(2) clone_content(3) [OF cl] by auto
  then obtain h3 where ap: "apply_action h2 c action = (Inr (), h3)"
    by (cases "apply_action h2 c action") auto
  let ?w4 = "w1\<lparr>hp := h3, nodes := (nodes w)(k \<mapsto>
              node\<lparr>children := AList.update action (key h3 c) (children node)\<rparr>)\<rparr>"
  from rollout_ok [of rnd default_max_depth c ?w4] obtain v w5
    where r: "rollout rnd default_max_depth c ?w4 = (Inr v, w5)" and n: "nodes w5 = nodes ?w4"
    by blast
  show thesis
    by (rule that [OF ch a f cl ap r])
       (use n ch f cl ap r in \<open>simp_all add: simulate_expand_def Let_def backpropagate_eq\<close>)
qed

lemma simulate_cases [consumes 1, case_names terminal leaf pass expand select]:
  assumes "simulate rnd cpuct (Suc fuel) st path w = Some res"
  obtains
    "is_terminal (hp w) st"
      "res = (Inr (fst (backpropagate path (winner (hp w) st) w)),
              snd (backpropagate path (winner (hp w) st) w))"
  | "\<not> is_terminal (hp w) st" "nodes w (key (hp w) st) = None"
      "res = simulate_leaf rnd st path w"
  | node dice w1 where "\<not> is_terminal (hp w) st" "nodes w (key (hp w) st) = Some node"
      "randint rnd 1 6 w = (dice, w1)" "get_legal_actions (hp w1) st dice = []"
      "simulate rnd cpuct fuel st path (w1\<lparr>hp := pass_turn (hp w1) st\<rparr>) = Some res"
  | node dice w1 where "\<not> is_terminal (hp w) st" "nodes w (key (hp w) st) = Some node"
      "randint rnd 1 6 w = (dice, w1)"
      "filter (\<lambda>a. map_of (children node) a = None) (get_legal_actions (hp w1) st dice) \<noteq> []"
      "res = simulate_expand rnd st (key (hp w) st) node path
               (filter (\<lambda>a. map_of (children node) a = None) (get_legal_actions (hp w1) st dice)) w1"
  | node dice w1 action h2 where "\<not> is_terminal (hp w) st" "nodes w (key (hp w) st) = Some node"
      "randint rnd 1 6 w = (dice, w1)" "action \<in> set (get_legal_actions (hp w1) st dice)"
      "apply_action (hp w1) st action = (Inr (), h2)"
      "simulate rnd cpuct fuel st
         (path @ [(key (hp w) st, action, current_player (states_of (hp w1) st))])
         (w1\<lparr>hp := h2\<rparr>) = Some res"
proof (cases "is_terminal (hp w) st")
  case True
  with assms have "res = (Inr (fst (backpropagate path (winner (hp w) st) w)),
              snd (backpropagate path (winner (hp w) st) w))"
    by (auto split: prod.splits)
  with True show thesis by (rule that(1))
next
  case nt: False
  show thesis
  proof (cases "nodes w (key (hp w) st)")
    case None
    with assms nt have "res = simulate_leaf rnd st path w" by (simp add: Let_def)
    with nt None show thesis by (rule that(2))
  next
    case (Some node)
    obtain dice w1 where r: "randint rnd 1 6 w = (dice, w1)" by (cases "randint rnd 1 6 w")
    let ?legal = "get_legal_actions (hp w1) st dice"
    let ?untried = "filter (\<lambda>a. map_of (children node) a = None) ?legal"
    show thesis
    proof (cases "?legal = []")
      case True
      with assms nt Some r
      have "simulate rnd cpuct fuel st path (w1\<lparr>hp := pass_turn (hp w1) st\<rparr>) = Some res"
        by (simp add: Let_def)
      with nt Some r True show thesis by (rule that(3))
    next
      case ne: False
      show thesis
      proof (cases "?untried = []")
        case False
        with assms nt Some r ne
        have "res = simulate_expand rnd st (key (hp w) st) node path ?untried w1"
          by (simp add: Let_def)
        with nt Some r False show thesis by (rule that(4))
      next
        case True
        from max_by_ok [OF ne, of score_gt
            "\<lambda>act. uct_score node act cpuct (current_player (states_of (hp w1) st))"]
        obtain action where m: "max_by score_gt
            (\<lambda>act. uct_score node act cpuct (current_player (states_of (hp w1) st))) ?legal = Inr action"
          and a: "action \<in> set ?legal" by blast
        have "fst (apply_action (hp w1) st action) = Inr ()"
          using apply_legal [OF a] by simp
        then obtain h2 where ap: "apply_action (hp w1) st action = (Inr (), h2)"
          by (cases "apply_action (hp w1) st action") auto
        from assms nt Some r ne True m ap
        have "simulate rnd cpuct fuel st
           (path @ [(key (hp w) st, action, current_player (states_of (hp w1) st))])
           (w1\<lparr>hp := h2\<rparr>) = Some res"
          by (simp add: Let_def)
        with nt Some r a ap show thesis by (rule that(5))
      qed
    qed
  qed
qed

subsection \<open>The node table only grows\<close>

lemma backprop_step_dom: "dom (backprop_step outcome ns e) = dom ns"
  by (auto simp: backprop_step_def Let_def split: option.splits if_splits)

lemma backprop_step_visited: "visited ns k \<Longrightarrow> visited (backprop_step outcome ns e) k"
  by (auto simp: backprop_step_def visited_def Let_def split: option.splits)


lemma backprop_fold_dom: "dom (foldl (backprop_step outcome) ns path) = dom ns"
  by (induction path arbitrary: ns) (simp_all add: backprop_step_dom)

lemma backprop_fold_visited:
  "visited ns k \<Longrightarrow> visited (foldl (backprop_step outcome) ns path) k"
  by (induction path arbitrary: ns) (simp_all add: backprop_step_visited)


lemma simulate_nodes:
  "simulate rnd cpuct fuel st path w = Some (r, w') \<Longrightarrow>
   (\<exists>v. r = Inr v) \<and> dom (nodes w) \<subseteq> dom (nodes w') \<and>
   (\<forall>k. visited (nodes w) k \<longrightarrow> visited (nodes w') k)"
proof (induction fuel arbitrary: st path w)
  case 0
  then show ?case by simp
next
  case (Suc fuel)
  from Suc.prems show ?case
  proof (cases rule: simulate_cases)
    case terminal
    then show ?thesis
      by (simp add: backpropagate_eq backprop_fold_dom backprop_fold_visited)
  next
    case leaf
    obtain v w2 outcome where
      n: "nodes w2 = (nodes w)(key (hp w) st \<mapsto> MCTSNode_init (key (hp w) st))"
      and s: "simulate_leaf rnd st path w =
           (Inr outcome, w2\<lparr>nodes := foldl (backprop_step outcome) (nodes w2) path\<rparr>)"
      by (rule simulate_leaf_result [of rnd st w path])
    have "visited (nodes w) k \<Longrightarrow> visited (nodes w2) k" for k
      using leaf(2) by (auto simp: n visited_def)
    then show ?thesis
      using leaf(3) s n by (auto simp: backprop_fold_dom backprop_fold_visited)
  next
    case (pass node dice w1)
    from Suc.IH [OF pass(5)] randint_frame [OF pass(3)] show ?thesis by simp
  next
    case (expand node dice w1)
    note f = randint_frame [OF expand(3)]
    let ?untried = "filter (\<lambda>a. map_of (children node) a = None) (get_legal_actions (hp w1) st dice)"
    have sub: "set ?untried \<subseteq> set (get_legal_actions (hp w1) st dice)" by auto
    obtain action h3 c w5 outcome where
      n: "nodes w5 = (nodes w1)(key (hp w) st \<mapsto>
              node\<lparr>children := AList.update action (key h3 c) (children node)\<rparr>)"
      and s: "simulate_expand rnd st (key (hp w) st) node path ?untried w1 =
           (Inr outcome, w5\<lparr>nodes := foldl (backprop_step outcome) (nodes w5)
              (path @ [(key (hp w) st, action, current_player (states_of h3 st))])\<rparr>)"
      by (rule simulate_expand_result [OF expand(4) sub, of rnd "key (hp w) st" node path])
    have "visited (nodes w) k \<Longrightarrow> visited (nodes w5) k" for k
      using expand(2) f by (auto simp: n visited_def)
    moreover have "dom (nodes w) \<subseteq> dom (nodes w5)"
      using f by (auto simp: n)
    ultimately show ?thesis
      using expand(5) s
      by (auto simp del: foldl_append simp: backprop_fold_dom backprop_fold_visited)
  next
    case (select node dice w1 action h2)
    from Suc.IH [OF select(6)] randint_frame [OF select(3)] show ?thesis by simp
  qed
qed

lemma simulations_nodes:
  "simulations rnd cpuct fuel n rs w = Some (r, w') \<Longrightarrow>
   r = Inr () \<and> dom (nodes w) \<subseteq> dom (nodes w') \<and>
   (\<forall>k. visited (nodes w) k \<longrightarrow> visited (nodes w') k)"
proof (induction n arbitrary: w)
  case 0
  then show ?case by simp
next
  case (Suc n)
  obtain c h1 where cl: "clone (hp w) rs = (c, h1)" by (cases "clone (hp w) rs")
  from Suc.prems cl obtain r1 w1 where s: "simulate rnd cpuct fuel c [] (w\<lparr>hp := h1\<rparr>) = Some (r1, w1)"
    by (auto split: option.splits)
  from simulate_nodes [OF s] obtain v where v: "r1 = Inr v"
    and m: "dom (nodes w) \<subseteq> dom (nodes w1)" "\<And>k. visited (nodes w) k \<Longrightarrow> visited (nodes w1) k"
    by auto
  from Suc.prems cl s v have "simulations rnd cpuct fuel n rs w1 = Some (r, w')" by simp
  from Suc.IH [OF this] m show ?case by blast
qed

subsection \<open>The first simulation of a search\<close>

declare simulate.simps(2) [simp del]

lemma get_legal_actions_cong:
  "lists_of h' (current_tokens h' st') = lists_of h (current_tokens h st) \<Longrightarrow>
   current_player (states_of h' st') = current_player (states_of h st) \<Longrightarrow>
   get_legal_actions h' st' d = get_legal_actions h st d"
  by (simp add: get_legal_actions_def)

lemma is_terminal_key: "key h' st' = key h st \<Longrightarrow> is_terminal h' st' = is_terminal h st"
  by (simp add: key_def is_terminal_def Let_def)

lemma randint_die:
  "randint rnd 1 6 w = (1 + int (rnd (rpos w) mod 6), w\<lparr>rpos := rpos w + 1\<rparr>)"
  by (simp add: randint_def)




lemma simulate_first_visit:
  assumes nd: "nodes w (key (hp w) st) = Some node" and ch: "children node = []"
    and n0: "N node = []"
    and nt: "\<not> is_terminal (hp w) st"
    and ne: "get_legal_actions (hp w) st (1 + int (rnd (rpos w) mod 6)) \<noteq> []"
  shows "\<exists>v w' a node'. simulate rnd cpuct (Suc fuel) st [] w = Some (Inr v, w') \<and>
           nodes w' (key (hp w) st) = Some node' \<and> N node' = [(a, 1)] \<and>
           a \<in> set (get_legal_actions (hp w) st (1 + int (rnd (rpos w) mod 6)))"
proof -
  let ?d = "1 + int (rnd (rpos w) mod 6)"
  let ?w1 = "w\<lparr>rpos := rpos w + 1\<rparr>"
  let ?legal = "get_legal_actions (hp w) st ?d"
  let ?k = "key (hp w) st"
  have un: "filter (\<lambda>a. map_of (children node) a = None) ?legal = ?legal"
    by (simp add: ch)
  have sim: "simulate rnd cpuct (Suc fuel) st [] w =
               Some (simulate_expand rnd st ?k node [] ?legal ?w1)"
    using nd nt ne un by (simp add: simulate.simps(2) randint_die Let_def)
  have sub: "set ?legal \<subseteq> set (get_legal_actions (hp ?w1) st ?d)" by simp
  obtain action h3 c w5 outcome where a: "action \<in> set ?legal"
    and n: "nodes w5 = (nodes ?w1)(?k \<mapsto>
              node\<lparr>children := AList.update action (key h3 c) (children node)\<rparr>)"
    and s: "simulate_expand rnd st ?k node [] ?legal ?w1 =
           (Inr outcome, w5\<lparr>nodes := foldl (backprop_step outcome) (nodes w5)
              ([] @ [(?k, action, current_player (states_of h3 st))])\<rparr>)"
    by (rule simulate_expand_result [OF ne sub, of rnd ?k node "[]"])
  let ?w' = "w5\<lparr>nodes := foldl (backprop_step outcome) (nodes w5)
              ([] @ [(?k, action, current_player (states_of h3 st))])\<rparr>"
  have "\<exists>node'. nodes ?w' ?k = Some node' \<and> N node' = [(action, 1)]"
    by (simp add: n backprop_step_def Let_def n0 dict_get_def)
  then obtain node' where n': "nodes ?w' ?k = Some node'" "N node' = [(action, 1)]" by blast
  have r: "simulate rnd cpuct (Suc fuel) st [] w = Some (Inr outcome, ?w')"
    unfolding sim s ..
  show ?thesis using r n' a by blast
qed

lemma search_unfold_one:
  assumes "clone (hp w) rs = (c, h1)"
    and "simulate rnd cpuct fuel c []
           (w\<lparr>nodes := (nodes w)(key (hp w) rs \<mapsto> MCTSNode_init (key (hp w) rs)), hp := h1\<rparr>)
         = Some (Inr v, w1)"
    and "nodes w (key (hp w) rs) = None"
    and "nodes w1 (key (hp w) rs) = Some root_node"
  shows "search rnd fuel cpuct 1 rs w =
           (if N root_node = [] then Some (Inr None, w1)
            else case max_by (\<lambda>x y. x > y) snd (N root_node) of
                   Inl e \<Rightarrow> Some (Inl e, w1)
                 | Inr item \<Rightarrow> Some (Inr (Some (fst item)), w1))"
  using assms by (simp add: search_def Let_def)

lemma search_budget_one:
  assumes fr: "nodes w (key (hp w) rs) = None"
    and nt: "\<not> is_terminal (hp w) rs"
    and ne: "get_legal_actions (hp w) rs (1 + int (rnd (rpos w) mod 6)) \<noteq> []"
  shows "\<exists>a w'. search rnd (Suc fuel) cpuct 1 rs w = Some (Inr (Some a), w') \<and>
           a \<in> set (get_legal_actions (hp w) rs (1 + int (rnd (rpos w) mod 6)))"
proof -
  let ?k = "key (hp w) rs"
  obtain c h1 where cl: "clone (hp w) rs = (c, h1)" by (cases "clone (hp w) rs")
  note cc = clone_content [OF cl]
  let ?w1 = "w\<lparr>nodes := (nodes w)(?k \<mapsto> MCTSNode_init ?k), hp := h1\<rparr>"
  have k: "key (hp ?w1) c = ?k" using cc(5) by simp
  have lg: "get_legal_actions (hp ?w1) c d = get_legal_actions (hp w) rs d" for d
    using get_legal_actions_cong [OF cc(3) cc(4)] by simp
  have "\<exists>v w' a node'. simulate rnd cpuct (Suc fuel) c [] ?w1 = Some (Inr v, w') \<and>
           nodes w' (key (hp ?w1) c) = Some node' \<and> N node' = [(a, 1)] \<and>
           a \<in> set (get_legal_actions (hp ?w1) c (1 + int (rnd (rpos ?w1) mod 6)))"
  proof (rule simulate_first_visit)
    show "nodes ?w1 (key (hp ?w1) c) = Some (MCTSNode_init ?k)" using k by simp
    show "children (MCTSNode_init ?k) = []" "N (MCTSNode_init ?k) = []"
      by (simp_all add: MCTSNode_init_def)
    show "\<not> is_terminal (hp ?w1) c" using nt is_terminal_key [OF k] by simp
    show "get_legal_actions (hp ?w1) c (1 + int (rnd (rpos ?w1) mod 6)) \<noteq> []"
      using ne lg by simp
  qed
  then obtain v w' a node' where s: "simulate rnd cpuct (Suc fuel) c [] ?w1 = Some (Inr v, w')"
    and n: "nodes w' ?k = Some node'" "N node' = [(a, 1)]"
    and a: "a \<in> set (get_legal_actions (hp w) rs (1 + int (rnd (rpos w) mod 6)))"
    unfolding k lg by auto
  have "search rnd (Suc fuel) cpuct 1 rs w = Some (Inr (Some a), w')"
    using search_unfold_one [OF cl s fr n(1)] n(2) by simp
  with a show ?thesis by blast
qed

subsection \<open>A simulation that never ends\<close>

lemma all_home_no_action:
  assumes "list_all (\<lambda>pos. pos = HOME) (lists_of h (current_tokens h st))" and "d \<noteq> 6"
  shows "get_legal_actions h st d = []"
proof -
  have "\<forall>a. a \<notin> set (get_legal_actions h st d)"
  proof (rule allI)
    fix a :: action
    obtain idx target where a: "a = (idx, target)" by (cases a)
    show "a \<notin> set (get_legal_actions h st d)"
      using assms unfolding a legal_index
      by (auto simp: legal_step_single list_all_length board_consts)
  qed
  then have "set (get_legal_actions h st d) = {}" by (simp only: all_not_in_conv)
  then show ?thesis by (simp only: set_empty)
qed

lemma all_home_not_finished:
  "tokens \<noteq> [] \<Longrightarrow> list_all (\<lambda>pos. pos = HOME) tokens \<Longrightarrow> \<not> all_finished tokens"
  by (cases tokens) (auto simp: all_finished_def board_consts)

lemma simulate_stuck:
  assumes "lists_of (hp w) (blue_tokens (states_of (hp w) st)) = bs"
    and "lists_of (hp w) (red_tokens (states_of (hp w) st)) = rs"
    and "bs \<noteq> []" "rs \<noteq> []"
    and "list_all (\<lambda>pos. pos = HOME) bs" "list_all (\<lambda>pos. pos = HOME) rs"
    and "nodes w (Blue, bs, rs) \<noteq> None" "nodes w (Red, bs, rs) \<noteq> None"
    and "\<forall>i. rnd i mod 6 \<noteq> 5"
  shows "simulate rnd cpuct fuel st path w = None"
  using assms
proof (induction fuel arbitrary: w)
  case 0
  show ?case by simp
next
  case (Suc fuel)
  let ?d = "1 + int (rnd (rpos w) mod 6)"
  let ?w1 = "w\<lparr>rpos := rpos w + 1\<rparr>"
  have nt: "\<not> is_terminal (hp w) st"
    using Suc.prems(1-6) all_home_not_finished by (simp add: is_terminal_def Let_def)
  have k: "nodes w (key (hp w) st) \<noteq> None"
    using Suc.prems(1,2,7,8) by (cases "current_player (states_of (hp w) st)") (simp_all add: key_def Let_def)
  have d: "?d \<noteq> 6" using Suc.prems(9) by (simp add: eq_commute [of 6])
  have cur: "list_all (\<lambda>pos. pos = HOME) (lists_of (hp w) (current_tokens (hp w) st))"
    using Suc.prems(1,2,5,6) by (simp add: current_tokens_def Let_def)
  have lg: "get_legal_actions (hp w) st ?d = []"
    by (rule all_home_no_action [OF cur d])
  have step: "simulate rnd cpuct (Suc fuel) st path w =
                simulate rnd cpuct fuel st path (?w1\<lparr>hp := pass_turn (hp w) st\<rparr>)"
    using nt k lg by (subst simulate.simps(2)) (auto simp: randint_die Let_def)
  have "simulate rnd cpuct fuel st path (?w1\<lparr>hp := pass_turn (hp w) st\<rparr>) = None"
    using Suc.prems by (intro Suc.IH) (simp_all add: pass_turn_def)
  with step show ?case by simp
qed

text \<open>
  The loop of _simulate need not end. In a position with every token at home, once the
  table holds the nodes of both players' turns, a simulation in which no six is drawn
  passes the turn back and forth for ever: no amount of fuel gives a result, and neither
  does a search with a budget of at least 1.
\<close>

lemma search_never_returns:
  assumes "lists_of (hp w) (blue_tokens (states_of (hp w) st)) = bs"
    and "lists_of (hp w) (red_tokens (states_of (hp w) st)) = rs"
    and "bs \<noteq> []" "rs \<noteq> []"
    and "list_all (\<lambda>pos. pos = HOME) bs" "list_all (\<lambda>pos. pos = HOME) rs"
    and "nodes w (Blue, bs, rs) \<noteq> None" "nodes w (Red, bs, rs) \<noteq> None"
    and "\<forall>i. rnd i mod 6 \<noteq> 5"
    and "1 \<le> n"
  shows "search rnd fuel cpuct n st w = None"
proof -
  obtain m where m: "nat n = Suc m" using assms(10) by (cases "nat n") auto
  obtain c h1 where cl: "clone (hp w) st = (c, h1)" by (cases "clone (hp w) st")
  have k: "nodes w (key (hp w) st) \<noteq> None"
    using assms(1,2,7,8) by (cases "current_player (states_of (hp w) st)") (simp_all add: key_def Let_def)
  from cl have b: "lists_of h1 (blue_tokens (states_of h1 c)) = bs"
    and r: "lists_of h1 (red_tokens (states_of h1 c)) = rs"
    using assms(1,2) by (auto simp: clone_def LudoState_init_def Let_def)
  have "simulate rnd cpuct fuel c [] (w\<lparr>hp := h1\<rparr>) = None"
    by (rule simulate_stuck [where bs = bs and rs = rs]) (use b r assms in simp_all)
  then show ?thesis
    using k cl by (auto simp: search_def Let_def m)
qed

subsection \<open>What search returns\<close>



subsection \<open>The operations that can fail\<close>

lemma search_no_error:
  assumes "search rnd fuel cpuct n rs w = Some (r, w')"
  shows "\<exists>a. r = Inr a"
proof -
  let ?k = "key (hp w) rs"
  let ?w0 = "if nodes w ?k = None then w\<lparr>nodes := (nodes w)(?k \<mapsto> MCTSNode_init ?k)\<rparr> else w"
  from assms obtain r0 w1 where s: "simulations rnd cpuct fuel (nat n) rs ?w0 = Some (r0, w1)"
    by (auto simp: search_def Let_def split: option.splits)
  from simulations_nodes [OF s] have r0: "r0 = Inr ()" and d: "dom (nodes ?w0) \<subseteq> dom (nodes w1)"
    by blast+
  have "?k \<in> dom (nodes ?w0)" by auto
  with d obtain root_node where rn: "nodes w1 ?k = Some root_node" by blast
  show ?thesis
  proof (cases "N root_node = []")
    case True
    with assms s r0 rn show ?thesis by (auto simp: search_def Let_def)
  next
    case False
    from max_by_ok [OF False, of "\<lambda>x y. x > y" snd] obtain item
      where "max_by (\<lambda>x y. x > y) snd (N root_node) = Inr item" by blast
    with assms s r0 rn False show ?thesis by (auto simp: search_def Let_def)
  qed
qed

lemma apply_action_result:
  "fst (apply_action h self act) =
     (case py_index (length (lists_of h (current_tokens h self))) (fst act) of
        None \<Rightarrow> Inl IndexError
      | Some k \<Rightarrow>
          if lists_of h (current_tokens h self) ! k = HOME \<and> snd act \<noteq> 0 then Inl ValueError
          else Inr ())"
  by (simp add: apply_action_def Let_def split: option.splits)

lemma py_index_None: "py_index n i = None \<longleftrightarrow> i < - int n \<or> int n \<le> i"
  by (auto simp: py_index_def)

text \<open>
  Claim C5, as stated, fails: apply_action has a third way to fail. With Blue's tokens on
  5, 6, 7 and 8 (none at home) and the action (4, 0), whose target is 0, the read
  \<^verbatim>\<open>tokens[token_index]\<close> raises IndexError, although no token at home is asked to move
  to a target other than 0.
\<close>

theorem apply_action_index_counterexample:
  "lists_of (board [5, 6, 7, 8] [- 1, - 1, - 1, - 1] Blue)
     (current_tokens (board [5, 6, 7, 8] [- 1, - 1, - 1, - 1] Blue) 2) = [5, 6, 7, 8] \<and>
   snd (4 :: int, 0 :: int) = 0 \<and>
   fst (apply_action (board [5, 6, 7, 8] [- 1, - 1, - 1, - 1] Blue) 2 (4, 0)) = Inl IndexError"
  by code_simp

text \<open>
  Claim C5, amended. The operations fail exactly as follows. choose_blue_move raises if
  and only if the state's turn is not Blue (the error is the ValueError, raised before
  anything is done); with Blue to move it never raises, whatever the fuel. apply_action
  raises IndexError if and only if the action's token index is not an index of the mover's
  token list (as a Python index: below minus the length, or at least the length);
  otherwise it raises ValueError if and only if the token it names is at home and the
  target is not 0; otherwise it does not raise. rollout never raises, and neither does
  search. get_legal_actions, is_terminal and winner contain no operation that can fail:
  they are total functions here, with no error value in their result type.
\<close>

theorem fallible_operations:
  "((\<exists>e w'. choose_blue_move rnd fuel st n w = Some (Inl e, w')) \<longleftrightarrow>
      current_player (states_of (hp w) st) \<noteq> Blue) \<and>
   (\<forall>e w'. choose_blue_move rnd fuel st n w = Some (Inl e, w') \<longrightarrow> e = ValueError \<and> w' = w) \<and>
   fst (apply_action h self act) =
     (case py_index (length (lists_of h (current_tokens h self))) (fst act) of
        None \<Rightarrow> Inl IndexError
      | Some k \<Rightarrow>
          if lists_of h (current_tokens h self) ! k = HOME \<and> snd act \<noteq> 0 then Inl ValueError
          else Inr ()) \<and>
   (py_index (length (lists_of h (current_tokens h self))) (fst act) = None \<longleftrightarrow>
      fst act < - int (length (lists_of h (current_tokens h self))) \<or>
      int (length (lists_of h (current_tokens h self))) \<le> fst act) \<and>
   \<not> isl (fst (rollout rnd' d st' w2)) \<and>
   (\<forall>res w'. search rnd fuel cpuct n st w = Some (res, w') \<longrightarrow> \<not> isl res)"
proof (intro conjI allI impI)
  show "(\<exists>e w'. choose_blue_move rnd fuel st n w = Some (Inl e, w')) \<longleftrightarrow>
      current_player (states_of (hp w) st) \<noteq> Blue"
    using search_no_error [of rnd fuel default_cpuct n st "w\<lparr>nodes := Map.empty\<rparr>"]
    by (auto simp: choose_blue_move_def)
next
  fix e w'
  assume "choose_blue_move rnd fuel st n w = Some (Inl e, w')"
  then show "e = ValueError" "w' = w"
    using search_no_error [of rnd fuel default_cpuct n st "w\<lparr>nodes := Map.empty\<rparr>"]
    by (auto simp: choose_blue_move_def split: if_splits)
next
  show "fst (apply_action h self act) =
     (case py_index (length (lists_of h (current_tokens h self))) (fst act) of
        None \<Rightarrow> Inl IndexError
      | Some k \<Rightarrow>
          if lists_of h (current_tokens h self) ! k = HOME \<and> snd act \<noteq> 0 then Inl ValueError
          else Inr ())"
    by (rule apply_action_result)
next
  show "py_index (length (lists_of h (current_tokens h self))) (fst act) = None \<longleftrightarrow>
      fst act < - int (length (lists_of h (current_tokens h self))) \<or>
      int (length (lists_of h (current_tokens h self))) \<le> fst act"
    by (rule py_index_None)
next
  show "\<not> isl (fst (rollout rnd' d st' w2))"
    using rollout_ok [of rnd' d st' w2] by auto
next
  fix res w'
  assume "search rnd fuel cpuct n st w = Some (res, w')"
  from search_no_error [OF this] show "\<not> isl res" by auto
qed

theorem fallible_operations_witness:
  "current_player (states_of (hp (new_world (board [- 1, 3, - 1, - 1] [0, - 1, - 1, - 1] Red))) 2) \<noteq> Blue \<and>
   choose_blue_move (constant_rolls 0) 1 2 1 (new_world (board [- 1, 3, - 1, - 1] [0, - 1, - 1, - 1] Red)) =
     Some (Inl ValueError, new_world (board [- 1, 3, - 1, - 1] [0, - 1, - 1, - 1] Red)) \<and>
   fst (apply_action (board [- 1, 3, - 1, - 1] [0, - 1, - 1, - 1] Blue) 2 (0, 5)) = Inl ValueError \<and>
   \<not> isl (fst (rollout (constant_rolls 0) 3 2
       (new_world (board [- 1, 3, - 1, - 1] [0, - 1, - 1, - 1] Blue))))"
proof -
  let ?r = "new_world (board [- 1, 3, - 1, - 1] [0, - 1, - 1, - 1] Red)"
  let ?b = "board [- 1, 3, - 1, - 1] [0, - 1, - 1, - 1] Blue"
  have p: "current_player (states_of (hp ?r) 2) \<noteq> Blue"
    by (simp add: new_world_def board_unfold)
  have k: "py_index (length (lists_of ?b (current_tokens ?b 2))) (fst (0 :: int, 5 :: int)) = Some 0"
    by (simp add: board_unfold current_tokens_def py_index_def)
  have t: "lists_of ?b (current_tokens ?b 2) ! 0 = HOME \<and> snd (0::int, 5::int) \<noteq> 0"
    by (simp add: board_unfold current_tokens_def board_consts)
  note th = fallible_operations [where rnd = "constant_rolls 0" and fuel = 1 and st = 2 and n = 1
      and w = ?r and h = ?b and self = 2 and act = "(0, 5)"
      and rnd' = "constant_rolls 0" and d = 3 and st' = 2 and ?w2.0 = "new_world ?b"
      and cpuct = default_cpuct]
  from th p obtain e w' where c: "choose_blue_move (constant_rolls 0) 1 2 1 ?r = Some (Inl e, w')"
    by blast
  from th c have "e = ValueError" and "w' = ?r" by blast+
  with c have c2: "choose_blue_move (constant_rolls 0) 1 2 1 ?r = Some (Inl ValueError, ?r)"
    by simp
  from th have "fst (apply_action ?b 2 (0, 5)) =
     (case py_index (length (lists_of ?b (current_tokens ?b 2))) (fst (0 :: int, 5 :: int)) of
        None \<Rightarrow> Inl IndexError
      | Some k \<Rightarrow>
          if lists_of ?b (current_tokens ?b 2) ! k = HOME \<and> snd (0 :: int, 5 :: int) \<noteq> 0
          then Inl ValueError else Inr ())"
    by blast
  then have c4: "fst (apply_action ?b 2 (0, 5)) = Inl ValueError"
    unfolding k using t by simp
  from th have c5: "\<not> isl (fst (rollout (constant_rolls 0) 3 2 (new_world ?b)))" by blast
  from p c2 c4 c5 show ?thesis by (intro conjI)
qed

subsection \<open>What a search writes\<close>

lemma agree_below_refl: "agree_below n h h"
  by (simp add: agree_below_def)

lemma agree_below_trans: "agree_below n h h1 \<Longrightarrow> agree_below n h1 h2 \<Longrightarrow> agree_below n h h2"
  by (simp add: agree_below_def)

lemma apply_action_frame:
  assumes "owned n h st" and "apply_action h st a = (r, h')"
  shows "agree_below n h h' \<and> fresh h' = fresh h \<and> owned n h' st"
  using assms
  by (auto simp: apply_action_def capture_opponent_def agree_below_def owned_def
      current_tokens_def opponent_tokens_def Let_def split: option.splits if_splits)

lemma pass_turn_frame:
  assumes "owned n h st"
  shows "agree_below n h (pass_turn h st) \<and> fresh (pass_turn h st) = fresh h \<and>
         owned n (pass_turn h st) st"
  using assms by (auto simp: pass_turn_def agree_below_def owned_def)

lemma clone_frame:
  assumes "n \<le> fresh h" and "clone h st = (c, h')"
  shows "agree_below n h h' \<and> fresh h \<le> fresh h' \<and> owned n h' c"
  using assms
  by (auto simp: clone_def LudoState_init_def Let_def agree_below_def owned_def)

lemma rollout_frame:
  "owned n (hp w) st \<Longrightarrow> rollout rnd d st w = (r, w') \<Longrightarrow>
   agree_below n (hp w) (hp w') \<and> fresh (hp w') = fresh (hp w)"
proof (induction d arbitrary: w)
  case 0
  then show ?case by (auto simp: agree_below_refl)
next
  case (Suc d)
  show ?case
  proof (cases "is_terminal (hp w) st")
    case True
    with Suc.prems(2) show ?thesis
      by (auto simp: agree_below_refl split: option.splits player.splits)
  next
    case False
    let ?w1 = "w\<lparr>rpos := rpos w + 1\<rparr>"
    let ?d = "1 + int (rnd (rpos w) mod 6)"
    show ?thesis
    proof (cases "get_legal_actions (hp w) st ?d = []")
      case True
      with Suc.prems(2) False
      have r: "rollout rnd d st (?w1\<lparr>hp := pass_turn (hp w) st\<rparr>) = (r, w')"
        by (simp add: randint_die)
      from pass_turn_frame [OF Suc.prems(1)] Suc.IH [OF _ r]
      show ?thesis by (auto intro: agree_below_trans)
    next
      case ne: False
      from choice_ok [OF ne, of rnd ?w1] obtain a w2
        where c: "choice rnd (get_legal_actions (hp w) st ?d) ?w1 = (Inr a, w2)"
          and f2: "hp w2 = hp w" by auto
      obtain r3 h3 where ap: "apply_action (hp w) st a = (r3, h3)"
        by (cases "apply_action (hp w) st a")
      note fr = apply_action_frame [OF Suc.prems(1) ap]
      show ?thesis
      proof (cases r3)
        case (Inl e)
        with Suc.prems(2) False ne c f2 ap have "hp w' = h3"
          by (auto simp: randint_die)
        with fr show ?thesis by simp
      next
        case (Inr u)
        with Suc.prems(2) False ne c f2 ap
        have r: "rollout rnd d st (w2\<lparr>hp := h3\<rparr>) = (r, w')"
          by (simp add: randint_die)
        from fr Suc.IH [OF _ r] show ?thesis by (auto intro: agree_below_trans)
      qed
    qed
  qed
qed

lemma backprop_hp: "hp (snd (backpropagate path won w)) = hp w"
  by (simp add: backpropagate_eq)

lemma simulate_frame:
  "n \<le> fresh (hp w) \<Longrightarrow> owned n (hp w) st \<Longrightarrow>
   simulate rnd cpuct fuel st path w = Some (r, w') \<Longrightarrow>
   agree_below n (hp w) (hp w') \<and> fresh (hp w) \<le> fresh (hp w')"
proof (induction fuel arbitrary: path w)
  case 0
  then show ?case by simp
next
  case (Suc fuel)
  from Suc.prems(3) show ?case
  proof (cases rule: simulate_cases)
    case terminal
    then show ?thesis by (simp add: backprop_hp agree_below_refl)
  next
    case leaf
    obtain v w2 outcome where
      ro: "rollout rnd default_max_depth st
             (w\<lparr>nodes := (nodes w)(key (hp w) st \<mapsto> MCTSNode_init (key (hp w) st))\<rparr>) = (Inr v, w2)"
      and s: "simulate_leaf rnd st path w =
           (Inr outcome, w2\<lparr>nodes := foldl (backprop_step outcome) (nodes w2) path\<rparr>)"
      by (rule simulate_leaf_result [of rnd st w path])
    from rollout_frame [OF _ ro] Suc.prems(2) leaf(3) s show ?thesis by simp
  next
    case (pass node dice w1)
    note f = randint_frame [OF pass(3)]
    from pass_turn_frame [OF Suc.prems(2)] Suc.prems(1) f
      Suc.IH [OF _ _ pass(5)]
    show ?thesis by (auto intro: agree_below_trans)
  next
    case (expand node dice w1)
    note f = randint_frame [OF expand(3)]
    let ?untried = "filter (\<lambda>a. map_of (children node) a = None) (get_legal_actions (hp w1) st dice)"
    have sub: "set ?untried \<subseteq> set (get_legal_actions (hp w1) st dice)" by auto
    obtain action w2 c h2 h3 v w5 outcome where
      cl: "clone (hp w1) st = (c, h2)"
      and ap: "apply_action h2 c action = (Inr (), h3)"
      and ro: "rollout rnd default_max_depth c
           (w2\<lparr>hp := h3, nodes := (nodes w1)(key (hp w) st \<mapsto>
              node\<lparr>children := AList.update action (key h3 c) (children node)\<rparr>)\<rparr>) = (Inr v, w5)"
      and s: "simulate_expand rnd st (key (hp w) st) node path ?untried w1 =
           (Inr outcome, w5\<lparr>nodes := foldl (backprop_step outcome) (nodes w5)
              (path @ [(key (hp w) st, action, current_player (states_of h3 st))])\<rparr>)"
      by (rule simulate_expand_result [OF expand(4) sub, of rnd "key (hp w) st" node path])
    from Suc.prems(1) f have n1: "n \<le> fresh (hp w1)" by simp
    note c1 = clone_frame [OF n1 cl]
    from c1 have o2: "owned n h2 c" by simp
    note a1 = apply_action_frame [OF o2 ap]
    from a1 have o3: "owned n h3 c" by simp
    have r1: "agree_below n h3 (hp w5) \<and> fresh (hp w5) = fresh h3"
      using rollout_frame [OF _ ro] o3 by simp
    have "agree_below n (hp w) (hp w5)"
      using c1 a1 r1 f by (auto intro: agree_below_trans)
    moreover have "fresh (hp w) \<le> fresh (hp w5)"
      using c1 a1 r1 f by simp
    ultimately show ?thesis using expand(5) s by simp
  next
    case (select node dice w1 action h2)
    note f = randint_frame [OF select(3)]
    from Suc.prems(2) f have o1: "owned n (hp w1) st" by simp
    note a1 = apply_action_frame [OF o1 select(5)]
    from a1 Suc.prems(1) f Suc.IH [OF _ _ select(6)]
    show ?thesis by (auto intro: agree_below_trans)
  qed
qed

lemma simulations_frame:
  "n \<le> fresh (hp w) \<Longrightarrow> simulations rnd cpuct fuel m rs w = Some (r, w') \<Longrightarrow>
   agree_below n (hp w) (hp w') \<and> fresh (hp w) \<le> fresh (hp w')"
proof (induction m arbitrary: w)
  case 0
  then show ?case by (auto simp: agree_below_refl)
next
  case (Suc m)
  obtain c h1 where cl: "clone (hp w) rs = (c, h1)" by (cases "clone (hp w) rs")
  note c1 = clone_frame [OF Suc.prems(1) cl]
  from Suc.prems(2) cl obtain r1 w1
    where s: "simulate rnd cpuct fuel c [] (w\<lparr>hp := h1\<rparr>) = Some (r1, w1)"
    by (auto split: option.splits)
  have f1: "agree_below n h1 (hp w1) \<and> fresh h1 \<le> fresh (hp w1)"
    using simulate_frame [where n = n, OF _ _ s] c1 Suc.prems(1) by simp
  show ?case
  proof (cases r1)
    case (Inl e)
    with Suc.prems(2) cl s have "w' = w1" by simp
    with c1 f1 show ?thesis by (auto intro: agree_below_trans)
  next
    case (Inr v)
    with Suc.prems(2) cl s have s2: "simulations rnd cpuct fuel m rs w1 = Some (r, w')" by simp
    have "n \<le> fresh (hp w1)" using Suc.prems(1) c1 f1 by simp
    from Suc.IH [OF this s2] c1 f1 show ?thesis by (auto intro: agree_below_trans)
  qed
qed

lemma search_frame:
  assumes "search rnd fuel cpuct n rs w = Some (r, w')"
  shows "agree_below (fresh (hp w)) (hp w) (hp w')"
proof -
  let ?k = "key (hp w) rs"
  let ?w0 = "if nodes w ?k = None then w\<lparr>nodes := (nodes w)(?k \<mapsto> MCTSNode_init ?k)\<rparr> else w"
  from assms obtain r0 w1 where s: "simulations rnd cpuct fuel (nat n) rs ?w0 = Some (r0, w1)"
    and w': "hp w' = hp w1"
    by (auto simp: search_def Let_def split: option.splits sum.splits if_splits)
  have "fresh (hp w) \<le> fresh (hp ?w0)" by simp
  from simulations_frame [OF this s] w' show ?thesis by (auto split: if_splits)
qed

text \<open>
  Claim C10. search, and so choose_blue_move, never writes to the caller's root state:
  every simulation runs on a clone, whose lists and state object are newly allocated. For
  a root state that lies in the allocated part of the store with both its lists, whenever
  search or choose_blue_move returns (a value or an error), the root's state object (the
  lists it points to and the current player) and the contents of its blue and red token
  lists are what they were before the call.
\<close>

theorem search_keeps_root_state:
  assumes "rs < fresh (hp w)"
    and "blue_tokens (states_of (hp w) rs) < fresh (hp w)"
    and "red_tokens (states_of (hp w) rs) < fresh (hp w)"
    and "search rnd fuel cpuct n rs w = Some (r, w') \<or>
         choose_blue_move rnd fuel rs n w = Some (r, w')"
  shows "states_of (hp w') rs = states_of (hp w) rs \<and>
         lists_of (hp w') (blue_tokens (states_of (hp w') rs)) =
           lists_of (hp w) (blue_tokens (states_of (hp w) rs)) \<and>
         lists_of (hp w') (red_tokens (states_of (hp w') rs)) =
           lists_of (hp w) (red_tokens (states_of (hp w) rs))"
proof -
  have "agree_below (fresh (hp w)) (hp w) (hp w')"
  proof (cases "search rnd fuel cpuct n rs w = Some (r, w')")
    case True
    then show ?thesis by (rule search_frame)
  next
    case False
    with assms(4) have c: "choose_blue_move rnd fuel rs n w = Some (r, w')" by simp
    show ?thesis
    proof (cases "current_player (states_of (hp w) rs) = Blue")
      case True
      with c have "search rnd fuel default_cpuct n rs (w\<lparr>nodes := Map.empty\<rparr>) = Some (r, w')"
        by (simp add: choose_blue_move_def)
      from search_frame [OF this] show ?thesis by simp
    next
      case False
      with c have "w' = w" by (simp add: choose_blue_move_def)
      then show ?thesis by (simp add: agree_below_refl)
    qed
  qed
  with assms(1-3) show ?thesis by (simp add: agree_below_def)
qed

theorem search_keeps_root_state_witness:
  "2 < fresh (hp (new_world (board [- 1, - 1, - 1, - 1] [- 1, - 1, - 1, - 1] Blue))) \<and>
   blue_tokens (states_of (hp (new_world (board [- 1, - 1, - 1, - 1] [- 1, - 1, - 1, - 1] Blue))) 2)
     < fresh (hp (new_world (board [- 1, - 1, - 1, - 1] [- 1, - 1, - 1, - 1] Blue))) \<and>
   red_tokens (states_of (hp (new_world (board [- 1, - 1, - 1, - 1] [- 1, - 1, - 1, - 1] Blue))) 2)
     < fresh (hp (new_world (board [- 1, - 1, - 1, - 1] [- 1, - 1, - 1, - 1] Blue))) \<and>
   (\<exists>a w'. search (constant_rolls 5) (Suc 0) default_cpuct 1 2
        (new_world (board [- 1, - 1, - 1, - 1] [- 1, - 1, - 1, - 1] Blue)) = Some (Inr (Some a), w') \<and>
      states_of (hp w') 2 = \<lparr>blue_tokens = 0, red_tokens = 1, current_player = Blue\<rparr> \<and>
      lists_of (hp w') (blue_tokens (states_of (hp w') 2)) = [- 1, - 1, - 1, - 1] \<and>
      lists_of (hp w') (red_tokens (states_of (hp w') 2)) = [- 1, - 1, - 1, - 1])"
proof -
  let ?h = "board [- 1, - 1, - 1, - 1] [- 1, - 1, - 1, - 1] Blue"
  let ?w = "new_world ?h"
  have h: "hp ?w = ?h" "rpos ?w = 0" by (simp_all add: new_world_def)
  have a1: "2 < fresh (hp ?w)" by (simp add: new_world_def board_unfold)
  have a2: "blue_tokens (states_of (hp ?w) 2) < fresh (hp ?w)"
    by (simp add: new_world_def board_unfold)
  have a3: "red_tokens (states_of (hp ?w) 2) < fresh (hp ?w)"
    by (simp add: new_world_def board_unfold)
  have fr: "nodes ?w (key (hp ?w) 2) = None" by (simp add: new_world_def)
  have nt: "\<not> is_terminal (hp ?w) 2" unfolding h by code_simp
  have d: "1 + int (constant_rolls 5 (rpos ?w) mod 6) = 6" by (simp add: constant_rolls_def)
  have l6: "get_legal_actions ?h 2 6 \<noteq> []" by code_simp
  have ne: "get_legal_actions (hp ?w) 2 (1 + int (constant_rolls 5 (rpos ?w) mod 6)) \<noteq> []"
    unfolding d h(1) by (rule l6)
  from search_budget_one [where rnd = "constant_rolls 5" and w = ?w and rs = 2 and fuel = 0
      and cpuct = default_cpuct, OF fr nt ne]
  obtain a w' where s: "search (constant_rolls 5) (Suc 0) default_cpuct 1 2 ?w = Some (Inr (Some a), w')"
    by blast
  have k: "states_of (hp w') 2 = states_of (hp ?w) 2 \<and>
         lists_of (hp w') (blue_tokens (states_of (hp w') 2)) =
           lists_of (hp ?w) (blue_tokens (states_of (hp ?w) 2)) \<and>
         lists_of (hp w') (red_tokens (states_of (hp w') 2)) =
           lists_of (hp ?w) (red_tokens (states_of (hp ?w) 2))"
    by (rule search_keeps_root_state [where rnd = "constant_rolls 5" and fuel = "Suc 0"
          and cpuct = default_cpuct and n = 1 and r = "Inr (Some a)", OF a1 a2 a3])
       (simp add: s)
  have e1: "states_of (hp ?w) 2 = \<lparr>blue_tokens = 0, red_tokens = 1, current_player = Blue\<rparr>"
    by (simp add: new_world_def board_unfold)
  have e2: "lists_of (hp ?w) (blue_tokens (states_of (hp ?w) 2)) = [- 1, - 1, - 1, - 1]"
    by (simp add: new_world_def board_unfold)
  have e3: "lists_of (hp ?w) (red_tokens (states_of (hp ?w) 2)) = [- 1, - 1, - 1, - 1]"
    by (simp add: new_world_def board_unfold)
  have "states_of (hp w') 2 = \<lparr>blue_tokens = 0, red_tokens = 1, current_player = Blue\<rparr>"
    using conjunct1 [OF k] e1 by (rule trans)
  moreover have "lists_of (hp w') (blue_tokens (states_of (hp w') 2)) = [- 1, - 1, - 1, - 1]"
    using conjunct1 [OF conjunct2 [OF k]] e2 by (rule trans)
  moreover have "lists_of (hp w') (red_tokens (states_of (hp w') 2)) = [- 1, - 1, - 1, - 1]"
    using conjunct2 [OF conjunct2 [OF k]] e3 by (rule trans)
  ultimately have "states_of (hp w') 2 = \<lparr>blue_tokens = 0, red_tokens = 1, current_player = Blue\<rparr> \<and>
      lists_of (hp w') (blue_tokens (states_of (hp w') 2)) = [- 1, - 1, - 1, - 1] \<and>
      lists_of (hp w') (red_tokens (states_of (hp w') 2)) = [- 1, - 1, - 1, - 1]"
    by (intro conjI)
  with s a1 a2 a3 show ?thesis by blast
qed

subsection \<open>When search returns an action\<close>



















end
